theory Spec2Isabelle
  imports Main
begin

section \<open>Strings of code points\<close>

text \<open>
  A Python \<open>str\<close> is a sequence of Unicode code points. A code point is modelled by its
  number, a string by the list of its code points. The parts of a decomposition are
  strings of length one (\<open>list(p)\<close> in \<open>load_decomposition\<close>, \<open>list(s)\<close> in
  \<open>apply_replacements\<close>), so a part is a single code point.
\<close>

type_synonym uchar = nat
type_synonym ustring = "uchar list"

text \<open>\<open>s.startswith(p)\<close> and \<open>s.endswith(p)\<close>.\<close>

definition startswith :: "ustring \<Rightarrow> ustring \<Rightarrow> bool" where
  "startswith s p = (take (length p) s = p)"

definition endswith :: "ustring \<Rightarrow> ustring \<Rightarrow> bool" where
  "endswith s p = (length p \<le> length s \<and> drop (length s - length p) s = p)"

text \<open>
  \<open>s.replace(old, new)\<close>: the occurrences of \<open>old\<close> are found from left to right and do
  not overlap. For an empty \<open>old\<close> Python puts \<open>new\<close> in front of every character and
  at the end.
\<close>

function str_replace :: "ustring \<Rightarrow> ustring \<Rightarrow> ustring \<Rightarrow> ustring" where
  "str_replace old new s =
     (if old = [] then new @ concat (map (\<lambda>c. c # new) s)
      else if s = [] then []
      else if startswith s old then new @ str_replace old new (drop (length old) s)
      else hd s # str_replace old new (tl s))"
  by pat_completeness auto
termination
  by (relation "measure (\<lambda>(old, new, s). length s)") auto

declare str_replace.simps [simp del]

section \<open>generator.py\<close>

subsection \<open>The substitution pass\<close>

text \<open>
  \<open>REPLACEMENTS\<close> in the order of the dictionary literal:
  U+7518 U+4E00 becomes U+5176 U+4E0A, U+76EE U+4E00 becomes U+5177 U+4E0A,
  U+4E8E U+516B becomes U+4F59 U+4E0B.
\<close>

definition REPLACEMENTS :: "(ustring \<times> ustring) list" where
  "REPLACEMENTS =
     [([0x7518, 0x4E00], [0x5176, 0x4E0A]),
      ([0x76EE, 0x4E00], [0x5177, 0x4E0A]),
      ([0x4E8E, 0x516B], [0x4F59, 0x4E0B])]"

text \<open>
  \<open>apply_replacements\<close>: the parts are joined (a list of one-character strings is the
  string itself), every rule is applied in turn to the whole string, and the string is
  split into its characters again.
\<close>

definition apply_replacements :: "uchar list \<Rightarrow> uchar list" where
  "apply_replacements parts = fold (\<lambda>(k, v) s. str_replace k v s) REPLACEMENTS parts"

subsection \<open>The decomposition resolver\<close>

text \<open>
  The root map sends an elementary symbol to its letter (\<open>line[0]\<close> in \<open>load_roots\<close>: one
  character). The decomposition table is a dictionary: an association list in insertion
  order, looked up with \<open>map_of\<close>. Its keys are strings (the first field of a line); a
  part \<open>p\<close> is looked up as the one-character string \<open>[p]\<close>.
\<close>

type_synonym rootmap = "uchar \<rightharpoonup> uchar"
type_synonym decomposition = "(ustring \<times> uchar list list) list"

text \<open>
  \<open>expand_part\<close> mutates the two sets \<open>visited\<close> and \<open>missing_roots\<close>; the model returns
  them next to the result. \<open>expand_alternatives\<close> is the loop over
  \<open>decomposition[part]\<close>, \<open>expand_sub_parts\<close> the inner loop over \<open>sub_parts\<close> with the
  list \<open>expanded\<close> built so far.
\<close>

function (domintros) expand_part ::
    "uchar \<Rightarrow> decomposition \<Rightarrow> rootmap \<Rightarrow> uchar set \<Rightarrow> uchar set
      \<Rightarrow> uchar list option \<times> uchar set \<times> uchar set"
  and expand_alternatives ::
    "uchar list list \<Rightarrow> decomposition \<Rightarrow> rootmap \<Rightarrow> uchar set \<Rightarrow> uchar set
      \<Rightarrow> uchar list option \<times> uchar set \<times> uchar set"
  and expand_sub_parts ::
    "uchar list \<Rightarrow> uchar list \<Rightarrow> decomposition \<Rightarrow> rootmap \<Rightarrow> uchar set \<Rightarrow> uchar set
      \<Rightarrow> uchar list option \<times> uchar set \<times> uchar set"
where
  "expand_part part d rm visited missing =
     (if rm part \<noteq> None then (Some [part], visited, missing)
      else if part \<in> visited then (None, visited, missing)
      else (case map_of d [part] of
              None \<Rightarrow> (None, insert part visited, insert part missing)
            | Some alts \<Rightarrow>
                (case expand_alternatives alts d rm (insert part visited) missing of
                   (Some expanded, visited', missing') \<Rightarrow> (Some expanded, visited', missing')
                 | (None, visited', missing') \<Rightarrow> (None, visited', insert part missing'))))"
| "expand_alternatives [] d rm visited missing = (None, visited, missing)"
| "expand_alternatives (sub_parts # rest) d rm visited missing =
     (case expand_sub_parts (apply_replacements sub_parts) [] d rm visited missing of
        (Some expanded, visited', missing') \<Rightarrow> (Some expanded, visited', missing')
      | (None, visited', missing') \<Rightarrow> expand_alternatives rest d rm visited' missing')"
| "expand_sub_parts [] expanded d rm visited missing = (Some expanded, visited, missing)"
| "expand_sub_parts (sp # sps) expanded d rm visited missing =
     (case expand_part sp d rm visited missing of
        (None, visited', missing') \<Rightarrow> (None, visited', missing')
      | (Some res, visited', missing') \<Rightarrow>
          expand_sub_parts sps (expanded @ res) d rm visited' missing')"
  by pat_completeness auto

text \<open>
  What gets smaller: the number of keys of the table that are not yet visited. A call
  that keeps the visited set moves from the loop over alternatives to the loop over
  sub-parts to a part, or to a shorter list.
\<close>

definition decomposition_parts :: "decomposition \<Rightarrow> uchar set" where
  "decomposition_parts d = {p. [p] \<in> fst ` set d}"

definition unvisited :: "decomposition \<Rightarrow> uchar set \<Rightarrow> nat" where
  "unvisited d visited = card (decomposition_parts d - visited)"

definition expand_measure ::
    "(uchar \<times> decomposition \<times> rootmap \<times> uchar set \<times> uchar set)
     + (uchar list list \<times> decomposition \<times> rootmap \<times> uchar set \<times> uchar set)
     + (uchar list \<times> uchar list \<times> decomposition \<times> rootmap \<times> uchar set \<times> uchar set)
     \<Rightarrow> nat \<times> nat \<times> nat" where
  "expand_measure call =
     (case call of
        Inl (part, d, rm, visited, missing) \<Rightarrow> (unvisited d visited, 0, 0)
      | Inr (Inl (alts, d, rm, visited, missing)) \<Rightarrow> (unvisited d visited, 2, length alts)
      | Inr (Inr (sps, expanded, d, rm, visited, missing)) \<Rightarrow>
          (unvisited d visited, 1, length sps))"

lemma finite_decomposition_parts: "finite (decomposition_parts d)"
proof -
  have "decomposition_parts d \<subseteq> hd ` (fst ` set d)"
    unfolding decomposition_parts_def by force
  then show ?thesis by (rule finite_subset) simp
qed

lemma map_of_decomposition_parts:
  "map_of d [p] = Some alts \<Longrightarrow> p \<in> decomposition_parts d"
  unfolding decomposition_parts_def by (force dest: map_of_SomeD)

lemma unvisited_mono: "v \<subseteq> v' \<Longrightarrow> unvisited d v' \<le> unvisited d v"
  unfolding unvisited_def
  by (intro card_mono finite_Diff finite_decomposition_parts) blast

lemma unvisited_insert:
  "p \<in> decomposition_parts d \<Longrightarrow> p \<notin> v \<Longrightarrow> unvisited d (insert p v) < unvisited d v"
  unfolding unvisited_def
  by (intro psubset_card_mono finite_Diff finite_decomposition_parts) blast

text \<open>Wherever the resolver returns, the visited set it hands back contains the one it got.\<close>

lemma visited_grows_dom:
  "expand_part_expand_alternatives_expand_sub_parts_dom (Inl (part, d, rm, visited, missing))
     \<Longrightarrow> visited \<subseteq> fst (snd (expand_part part d rm visited missing))"
  "expand_part_expand_alternatives_expand_sub_parts_dom (Inr (Inl (alts, d, rm, visited, missing)))
     \<Longrightarrow> visited \<subseteq> fst (snd (expand_alternatives alts d rm visited missing))"
  "expand_part_expand_alternatives_expand_sub_parts_dom
      (Inr (Inr (sps, expanded, d, rm, visited, missing)))
     \<Longrightarrow> visited \<subseteq> fst (snd (expand_sub_parts sps expanded d rm visited missing))"
proof (induct rule: expand_part_expand_alternatives_expand_sub_parts.pinduct)
  case (1 part d rm visited missing)
  then show ?case
    by (auto simp: expand_part.psimps split: option.splits prod.splits)
next
  case (2 d rm visited missing)
  then show ?case by (simp add: expand_alternatives.psimps)
next
  case (3 sub_parts rest d rm visited missing)
  then show ?case
    by (fastforce simp: expand_alternatives.psimps split: option.splits prod.splits)
next
  case (4 expanded d rm visited missing)
  then show ?case by (simp add: expand_sub_parts.psimps)
next
  case (5 sp sps expanded d rm visited missing)
  then show ?case
    by (fastforce simp: expand_sub_parts.psimps split: option.splits prod.splits)
qed

lemma expand_total: "expand_part_expand_alternatives_expand_sub_parts_dom call"
proof -
  let ?R = "inv_image (less_than <*lex*> less_than <*lex*> less_than) expand_measure"
  have "wf ?R"
    by (intro wf_inv_image wf_lex_prod wf_less_than)
  then show ?thesis
  proof (induct call rule: wf_induct_rule)
    case (less call)
    show ?case
    proof (cases call)
      case (Inl a)
      obtain part d rm visited missing where a: "a = (part, d, rm, visited, missing)"
        by (cases a)
      show ?thesis
        unfolding Inl a
      proof (rule expand_part_expand_alternatives_expand_sub_parts.domintros(1))
        fix alts
        assume "rm part = None" "part \<notin> visited" "map_of d [part] = Some alts"
        then have "(Inr (Inl (alts, d, rm, insert part visited, missing)), call) \<in> ?R"
          by (simp add: Inl a expand_measure_def unvisited_insert map_of_decomposition_parts)
        then show "expand_part_expand_alternatives_expand_sub_parts_dom
            (Inr (Inl (alts, d, rm, insert part visited, missing)))"
          by (rule less)
      qed
    next
      case (Inr b)
      show ?thesis
      proof (cases b)
        case (Inl a)
        obtain alts d rm visited missing where a: "a = (alts, d, rm, visited, missing)"
          by (cases a)
        show ?thesis
        proof (cases alts)
          case Nil
          show ?thesis
            unfolding Inr Inl a Nil
            by (rule expand_part_expand_alternatives_expand_sub_parts.domintros(2))
        next
          case (Cons sub_parts rest)
          have inner: "expand_part_expand_alternatives_expand_sub_parts_dom
              (Inr (Inr (apply_replacements sub_parts, [], d, rm, visited, missing)))"
            by (rule less) (simp add: Inr Inl a Cons expand_measure_def)
          show ?thesis
            unfolding Inr Inl a Cons
          proof (rule expand_part_expand_alternatives_expand_sub_parts.domintros(3) [OF inner])
            fix v m
            assume "(None, v, m) =
              expand_sub_parts (apply_replacements sub_parts) [] d rm visited missing"
            with visited_grows_dom(3) [OF inner] have "visited \<subseteq> v"
              by (metis fst_conv snd_conv)
            from unvisited_mono [OF this, of d]
            have "(Inr (Inl (rest, d, rm, v, m)), call) \<in> ?R"
              by (auto simp: Inr Inl a Cons expand_measure_def)
            then show "expand_part_expand_alternatives_expand_sub_parts_dom
                (Inr (Inl (rest, d, rm, v, m)))"
              by (rule less)
          qed
        qed
      next
        case (Inr c)
        note Inr' = \<open>call = Inr b\<close>
        obtain sps expanded d rm visited missing
          where c: "c = (sps, expanded, d, rm, visited, missing)"
          by (cases c)
        show ?thesis
        proof (cases sps)
          case Nil
          show ?thesis
            unfolding Inr' Inr c Nil
            by (rule expand_part_expand_alternatives_expand_sub_parts.domintros(4))
        next
          case (Cons sp rest)
          have inner: "expand_part_expand_alternatives_expand_sub_parts_dom
              (Inl (sp, d, rm, visited, missing))"
            by (rule less) (simp add: Inr' Inr c Cons expand_measure_def)
          show ?thesis
            unfolding Inr' Inr c Cons
          proof (rule expand_part_expand_alternatives_expand_sub_parts.domintros(5) [OF inner])
            fix v m res
            assume "(Some res, v, m) = expand_part sp d rm visited missing"
            with visited_grows_dom(1) [OF inner] have "visited \<subseteq> v"
              by (metis fst_conv snd_conv)
            from unvisited_mono [OF this, of d]
            have "(Inr (Inr (rest, expanded @ res, d, rm, v, m)), call) \<in> ?R"
              by (auto simp: Inr' Inr c Cons expand_measure_def)
            then show "expand_part_expand_alternatives_expand_sub_parts_dom
                (Inr (Inr (rest, expanded @ res, d, rm, v, m)))"
              by (rule less)
          qed
        qed
      qed
    qed
  qed
qed

termination expand_part
  using expand_total by blast

declare expand_part.simps [simp del]

subsection \<open>The resolver under the recursion limit\<close>

text \<open>
  Every call of \<open>expand_part\<close> takes a frame of the interpreter, and so does the call of
  \<open>apply_replacements\<close> inside the loop over the alternatives; the loops themselves run
  in the frame of their call. Python raises \<open>RecursionError\<close> at a call that finds no
  frame free (the recursion limit is 1000 unless it is set otherwise), and nothing in
  \<open>generator.py\<close> catches it. \<open>expand_part_limited frames\<close> is \<open>expand_part\<close> called
  with \<open>frames\<close> frames free: the same three functions, with the error as a result.
\<close>

datatype resolver_error = RecursionError

function expand_part_limited ::
    "nat \<Rightarrow> uchar \<Rightarrow> decomposition \<Rightarrow> rootmap \<Rightarrow> uchar set \<Rightarrow> uchar set
      \<Rightarrow> resolver_error + uchar list option \<times> uchar set \<times> uchar set"
  and expand_alternatives_limited ::
    "nat \<Rightarrow> uchar list list \<Rightarrow> decomposition \<Rightarrow> rootmap \<Rightarrow> uchar set \<Rightarrow> uchar set
      \<Rightarrow> resolver_error + uchar list option \<times> uchar set \<times> uchar set"
  and expand_sub_parts_limited ::
    "nat \<Rightarrow> uchar list \<Rightarrow> uchar list \<Rightarrow> decomposition \<Rightarrow> rootmap \<Rightarrow> uchar set \<Rightarrow> uchar set
      \<Rightarrow> resolver_error + uchar list option \<times> uchar set \<times> uchar set"
where
  "expand_part_limited 0 part d rm visited missing = Inl RecursionError"
| "expand_part_limited (Suc frames) part d rm visited missing =
     (if rm part \<noteq> None then Inr (Some [part], visited, missing)
      else if part \<in> visited then Inr (None, visited, missing)
      else (case map_of d [part] of
              None \<Rightarrow> Inr (None, insert part visited, insert part missing)
            | Some alts \<Rightarrow>
                (case expand_alternatives_limited frames alts d rm (insert part visited) missing of
                   Inl e \<Rightarrow> Inl e
                 | Inr (Some expanded, visited', missing') \<Rightarrow>
                     Inr (Some expanded, visited', missing')
                 | Inr (None, visited', missing') \<Rightarrow>
                     Inr (None, visited', insert part missing'))))"
| "expand_alternatives_limited frames [] d rm visited missing = Inr (None, visited, missing)"
| "expand_alternatives_limited frames (sub_parts # rest) d rm visited missing =
     (if frames = 0 then Inl RecursionError
      else
        (case expand_sub_parts_limited frames (apply_replacements sub_parts) [] d rm
                visited missing of
           Inl e \<Rightarrow> Inl e
         | Inr (Some expanded, visited', missing') \<Rightarrow> Inr (Some expanded, visited', missing')
         | Inr (None, visited', missing') \<Rightarrow>
             expand_alternatives_limited frames rest d rm visited' missing'))"
| "expand_sub_parts_limited frames [] expanded d rm visited missing =
     Inr (Some expanded, visited, missing)"
| "expand_sub_parts_limited frames (sp # sps) expanded d rm visited missing =
     (case expand_part_limited frames sp d rm visited missing of
        Inl e \<Rightarrow> Inl e
      | Inr (None, visited', missing') \<Rightarrow> Inr (None, visited', missing')
      | Inr (Some res, visited', missing') \<Rightarrow>
          expand_sub_parts_limited frames sps (expanded @ res) d rm visited' missing')"
  by pat_completeness auto
termination expand_part_limited
  by (relation "measures
      [\<lambda>call. case call of Inl (frames, _) \<Rightarrow> frames | Inr (Inl (frames, _)) \<Rightarrow> frames
         | Inr (Inr (frames, _)) \<Rightarrow> frames,
       \<lambda>call. case call of Inl _ \<Rightarrow> 0 | Inr (Inl _) \<Rightarrow> 2 | Inr (Inr _) \<Rightarrow> 1,
       \<lambda>call. case call of Inl _ \<Rightarrow> 0 | Inr (Inl (_, alts, _)) \<Rightarrow> length alts
         | Inr (Inr (_, sps, _)) \<Rightarrow> length sps]") auto

declare expand_part_limited.simps(2) [simp del]

subsection \<open>The shape-code deriver\<close>

text \<open>
  \<open>expand_parts\<close> is the loop of \<open>get_code_for_decomp\<close> over the substituted parts:
  every part is resolved with a fresh visited set, the set of missing roots is shared.
  \<open>get_code_for_decomp\<close> returns the code next to the two collections it mutates; the
  code of four letters is \<open>codes[0] + codes[1] + codes[2] + codes[-1]\<close>, and
  \<open>"".join(parts)\<close> is the list of parts itself.
\<close>

fun expand_parts ::
    "uchar list \<Rightarrow> uchar list \<Rightarrow> decomposition \<Rightarrow> rootmap \<Rightarrow> uchar set
      \<Rightarrow> uchar list option \<times> uchar set" where
  "expand_parts [] expanded d rm missing = (Some expanded, missing)"
| "expand_parts (p # ps) expanded d rm missing =
     (case expand_part p d rm {} missing of
        (None, visited', missing') \<Rightarrow> (None, missing')
      | (Some res, visited', missing') \<Rightarrow> expand_parts ps (expanded @ res) d rm missing')"

definition get_code_for_decomp ::
    "uchar list \<Rightarrow> decomposition \<Rightarrow> rootmap \<Rightarrow> uchar set \<Rightarrow> (ustring \<times> ustring) list \<Rightarrow> ustring
      \<Rightarrow> ustring option \<times> uchar set \<times> (ustring \<times> ustring) list" where
  "get_code_for_decomp parts d rm missing singlecode_chars char =
     (case expand_parts (apply_replacements parts) [] d rm missing of
        (None, missing') \<Rightarrow> (None, missing', singlecode_chars)
      | (Some expanded, missing') \<Rightarrow>
          (let codes = List.map_filter rm expanded in
           if codes = [] then (None, missing', singlecode_chars)
           else if length codes = 1 then (None, missing', singlecode_chars @ [(char, parts)])
           else if length codes \<ge> 4
             then (Some [codes ! 0, codes ! 1, codes ! 2, last codes], missing', singlecode_chars)
           else (Some codes, missing', singlecode_chars)))"

subsection \<open>The table generator\<close>

text \<open>
  The state of \<open>main\<close>: the lines written to the output file, the two diagnostic
  collections, and the lines kept for the log of missing roots. \<open>try_decomps\<close> is the
  loop over the alternatives of one character (\<open>if code:\<close> holds for a code that is
  neither \<open>None\<close> nor empty), \<open>main_loop\<close> the loop over the items of the table.
\<close>

record gen_state =
  fout :: "ustring list"
  missing_roots :: "uchar set"
  singlecode_chars :: "(ustring \<times> ustring) list"
  missing_lines :: "ustring list"

definition TAB :: uchar where "TAB = 9"
definition NL :: uchar where "NL = 10"

fun try_decomps ::
    "uchar list list \<Rightarrow> ustring \<Rightarrow> decomposition \<Rightarrow> rootmap \<Rightarrow> bool \<Rightarrow> gen_state
      \<Rightarrow> bool \<times> gen_state" where
  "try_decomps [] char d rm success st = (success, st)"
| "try_decomps (parts # rest) char d rm success st =
     (case get_code_for_decomp parts d rm (missing_roots st) (singlecode_chars st) char of
        (code, missing', singlecode') \<Rightarrow>
          (let st' = st\<lparr>missing_roots := missing', singlecode_chars := singlecode'\<rparr> in
           case code of
             None \<Rightarrow> try_decomps rest char d rm success st'
           | Some c \<Rightarrow>
               if c \<noteq> []
               then try_decomps rest char d rm True (st'\<lparr>fout := fout st' @ [char @ [TAB] @ c @ [NL]]\<rparr>)
               else try_decomps rest char d rm success st'))"

fun main_loop :: "(ustring \<times> uchar list list) list \<Rightarrow> decomposition \<Rightarrow> rootmap \<Rightarrow> gen_state \<Rightarrow> gen_state" where
  "main_loop [] d rm st = st"
| "main_loop ((char, decomps) # items) d rm st =
     (case try_decomps decomps char d rm False st of
        (success, st') \<Rightarrow>
          main_loop items d rm
            (if \<not> success
             then st'\<lparr>missing_lines := missing_lines st' @ map (\<lambda>parts. char @ [TAB] @ parts @ [NL]) decomps\<rparr>
             else st'))"

definition generator_main :: "rootmap \<Rightarrow> decomposition \<Rightarrow> gen_state" where
  "generator_main rm d =
     main_loop d d rm \<lparr>fout = [], missing_roots = {}, singlecode_chars = [], missing_lines = []\<rparr>"

section \<open>transferer.py\<close>

subsection \<open>The scheme table\<close>

text \<open>
  An ASCII literal of the source as a string of code points, and \<open>str.lower\<close> on the
  ASCII letters, which are all that the scheme specification holds.
\<close>

definition ustr :: "string \<Rightarrow> ustring" where
  "ustr s = map of_char s"

definition lower :: "ustring \<Rightarrow> ustring" where
  "lower s = map (\<lambda>c. if 65 \<le> c \<and> c \<le> 90 then c + 32 else c) s"

fun dict_set :: "'k \<Rightarrow> 'v \<Rightarrow> ('k \<times> 'v) list \<Rightarrow> ('k \<times> 'v) list" where
  "dict_set k v [] = [(k, v)]"
| "dict_set k v ((k', v') # ps) = (if k = k' then (k, v) # ps else (k', v') # dict_set k v ps)"

text \<open>
  \<open>_RAW_XIAOHE\<close>, line by line: the key letter and the tokens between the commas (the
  splitting and stripping of \<open>_build_xiaohe_map\<close> done by hand). \<open>_build_xiaohe_map\<close>
  lowers keys and tokens and assigns \<open>m[tok] = key\<close> for every non-empty token; the
  dictionary \<open>_XH\<close> is the association list in insertion order.
\<close>

definition RAW_XIAOHE :: "(string \<times> string list) list" where
  "RAW_XIAOHE =
     [(''Q'', [''iu'']), (''W'', [''ei'']), (''R'', [''uan'']), (''T'', [''ue'', ''ve'']),
      (''Y'', [''un'']), (''U'', [''sh'']), (''I'', [''ch'']), (''O'', [''uo'']),
      (''P'', [''ie'']), (''S'', [''iong'', ''ong'']), (''D'', [''ai'']), (''F'', [''en'']),
      (''G'', [''eng'']), (''H'', [''ang'']), (''J'', [''an'']), (''K'', [''ing'', ''uai'']),
      (''L'', [''iang'', ''uang'']), (''Z'', [''ou'']), (''X'', [''ia'', ''ua'']),
      (''C'', [''ao'']), (''V'', [''ui'']), (''B'', [''in'']), (''N'', [''iao'']),
      (''M'', [''ian''])]"

definition build_xiaohe_map :: "(string \<times> string list) list \<Rightarrow> (ustring \<times> ustring) list" where
  "build_xiaohe_map raw =
     fold (\<lambda>(key, toks) m.
        fold (\<lambda>tok m. if lower (ustr tok) \<noteq> [] then dict_set (lower (ustr tok)) (lower (ustr key)) m
                       else m) toks m) raw []"

definition XH :: "(ustring \<times> ustring) list" where
  "XH = build_xiaohe_map RAW_XIAOHE"

text \<open>\<open>_INITIALS\<close> and \<open>_SINGLE_VOWELS\<close>.\<close>

definition INITIALS :: "ustring list" where
  "INITIALS = map ustr
     [''zh'', ''ch'', ''sh'',
      ''b'', ''p'', ''m'', ''f'', ''d'', ''t'', ''n'', ''l'',
      ''g'', ''k'', ''h'', ''j'', ''q'', ''x'', ''r'', ''z'', ''c'', ''s'',
      ''y'', ''w'']"

definition SINGLE_VOWELS :: "ustring set" where
  "SINGLE_VOWELS = set (map ustr [''a'', ''o'', ''e'', ''i'', ''u'', ''v''])"

subsection \<open>The phonetic transliterator\<close>

text \<open>
  \<open>sorted(keys, key=lambda s: -len(s))\<close>: a stable sort by falling length.
\<close>

definition longest_first :: "ustring list \<Rightarrow> ustring list" where
  "longest_first keys = sort_key (\<lambda>s. - int (length s)) keys"

text \<open>
  \<open>_split_initial_final\<close>: the first initial of the sorted list that is a prefix of the
  syllable, or the empty initial.
\<close>

definition split_initial_final :: "ustring \<Rightarrow> ustring \<times> ustring" where
  "split_initial_final pinyin =
     (case find (startswith pinyin) (longest_first INITIALS) of
        Some init \<Rightarrow> (init, drop (length init) pinyin)
      | None \<Rightarrow> ([], pinyin))"

text \<open>
  The loop over the sorted keys of \<open>_XH\<close> in both transliteration functions: the value
  of the first key that is a suffix of the final, \<open>None\<close> when the loop ends without a
  match.
\<close>

definition suffix_match :: "ustring \<Rightarrow> ustring option" where
  "suffix_match final =
     (case find (endswith final) (longest_first (map fst XH)) of
        Some k \<Rightarrow> map_of XH k
      | None \<Rightarrow> None)"

text \<open>
  \<open>_xiaohe_double_for_zero_initial\<close>. \<open>str.isalpha\<close> is a predicate of the Python
  library on code points; it is a parameter of the model.
\<close>

definition xiaohe_double_for_zero_initial :: "(uchar \<Rightarrow> bool) \<Rightarrow> ustring \<Rightarrow> ustring \<times> ustring" where
  "xiaohe_double_for_zero_initial isalpha final =
     (if final = [] then ([], [])
      else if final \<in> SINGLE_VOWELS \<or> (length final = 1 \<and> isalpha (hd final))
        then ([hd final], [hd final])
      else
        (let second =
           (case map_of XH final of
              Some v \<Rightarrow> v
            | None \<Rightarrow> (case suffix_match final of Some v \<Rightarrow> v | None \<Rightarrow> [hd final]))
         in ([hd final], second)))"

text \<open>
  \<open>_xiaohe_double\<close>: the pair of letters, or the \<open>ValueError\<close> raised when one of them is
  empty. \<open>matched if matched else \<dots>\<close> takes the fallback for \<open>None\<close> and for an empty
  string.
\<close>

datatype error = ValueError

definition xiaohe_double :: "(uchar \<Rightarrow> bool) \<Rightarrow> ustring \<Rightarrow> error + ustring \<times> ustring" where
  "xiaohe_double isalpha pinyin =
     (case split_initial_final pinyin of
        (init, fin) \<Rightarrow>
          if init = [] then Inr (xiaohe_double_for_zero_initial isalpha fin)
          else
            (let first = (case map_of XH init of Some v \<Rightarrow> v | None \<Rightarrow> [hd init]);
                 fallback = (if fin \<noteq> [] then [hd fin] else []);
                 second =
                   (case map_of XH fin of
                      Some v \<Rightarrow> v
                    | None \<Rightarrow>
                        (case suffix_match fin of
                           Some matched \<Rightarrow> if matched \<noteq> [] then matched else fallback
                         | None \<Rightarrow> fallback))
             in if first = [] \<or> second = [] then Inl ValueError else Inr (first, second)))"

subsection \<open>The merge generator\<close>

text \<open>
  \<open>main\<close> of \<open>transferer.py\<close>. The shape table is a dictionary in insertion order, the
  phonetic data is read with \<open>pinyin_map.get(ch)\<close> only; \<open>readings\<close> is that value,
  empty for a missing character (\<open>if not pinyins\<close> holds for \<open>None\<close> and for \<open>[]\<close>).
  The three loops are \<open>char_loop\<close> over the characters, \<open>shape_loop\<close> over the shape
  codes of one character, and \<open>pinyin_loop\<close> over its readings. \<open>shape_loop\<close> returns
  \<open>Inl (ch, shape)\<close> where the source writes the error log and raises \<open>SystemExit\<close>.

  The result of a run is its exit status and what it wrote: the output file (\<open>None\<close>
  when it was not written) and the log, which is either the error about a shape code of
  length below two, naming the character and the code, or the final report with the
  missing characters, the readings that could not be converted and the number of rows.
\<close>

type_synonym pinyin_map = "ustring \<rightharpoonup> ustring list"

datatype exit = Completed | SystemExit ustring ustring

datatype log_file = ShapeLengthError ustring ustring
  | Report "ustring set" "(ustring \<times> ustring) list" nat

record merge_state =
  out_lines :: "ustring list"
  missing_pinyin :: "ustring set"
  cannot_convert :: "(ustring \<times> ustring) list"

record files =
  exit_status :: exit
  OUT_FILE :: "ustring list option"
  ERR_LOG :: log_file

fun pinyin_loop ::
    "(uchar \<Rightarrow> bool) \<Rightarrow> ustring \<Rightarrow> uchar \<Rightarrow> uchar \<Rightarrow> ustring list
      \<Rightarrow> ustring list \<Rightarrow> (ustring \<times> ustring) list
      \<Rightarrow> ustring list \<times> (ustring \<times> ustring) list" where
  "pinyin_loop isalpha ch s_first s_last [] char_lines cannot = (char_lines, cannot)"
| "pinyin_loop isalpha ch s_first s_last (p # ps) char_lines cannot =
     (case xiaohe_double isalpha p of
        Inl e \<Rightarrow> pinyin_loop isalpha ch s_first s_last ps char_lines (cannot @ [(ch, p)])
      | Inr (a, b) \<Rightarrow>
          pinyin_loop isalpha ch s_first s_last ps
            (char_lines @ [ch @ [TAB] @ a @ b @ [s_first] @ [s_last]]) cannot)"

fun shape_loop ::
    "(uchar \<Rightarrow> bool) \<Rightarrow> ustring \<Rightarrow> ustring list \<Rightarrow> ustring list
      \<Rightarrow> ustring list \<Rightarrow> (ustring \<times> ustring) list
      \<Rightarrow> (ustring \<times> ustring) + (ustring list \<times> (ustring \<times> ustring) list)" where
  "shape_loop isalpha ch pinyins [] char_lines cannot = Inr (char_lines, cannot)"
| "shape_loop isalpha ch pinyins (shape # shapes) char_lines cannot =
     (if length shape < 2 then Inl (ch, shape)
      else
        (case pinyin_loop isalpha ch (hd shape) (last shape) pinyins char_lines cannot of
           (char_lines', cannot') \<Rightarrow> shape_loop isalpha ch pinyins shapes char_lines' cannot'))"

definition readings :: "pinyin_map \<Rightarrow> ustring \<Rightarrow> ustring list" where
  "readings pm ch = (case pm ch of None \<Rightarrow> [] | Some pinyins \<Rightarrow> pinyins)"

fun char_loop ::
    "(uchar \<Rightarrow> bool) \<Rightarrow> pinyin_map \<Rightarrow> (ustring \<times> ustring list) list \<Rightarrow> merge_state
      \<Rightarrow> (ustring \<times> ustring) + merge_state" where
  "char_loop isalpha pm [] st = Inr st"
| "char_loop isalpha pm ((ch, shape_list) # items) st =
     (let pinyins = readings pm ch in
      if pinyins = []
        then char_loop isalpha pm items (st\<lparr>missing_pinyin := insert ch (missing_pinyin st)\<rparr>)
      else
        (case shape_loop isalpha ch pinyins shape_list [] (cannot_convert st) of
           Inl fatal \<Rightarrow> Inl fatal
         | Inr (char_lines, cannot') \<Rightarrow>
             char_loop isalpha pm items
               (st\<lparr>out_lines := out_lines st @ char_lines, cannot_convert := cannot'\<rparr>)))"

definition transferer_main ::
    "(uchar \<Rightarrow> bool) \<Rightarrow> (ustring \<times> ustring list) list \<Rightarrow> pinyin_map \<Rightarrow> files" where
  "transferer_main isalpha shape_map pm =
     (case char_loop isalpha pm shape_map
             \<lparr>out_lines = [], missing_pinyin = {}, cannot_convert = []\<rparr> of
        Inl (ch, shape) \<Rightarrow>
          \<lparr>exit_status = SystemExit ch shape, OUT_FILE = None,
            ERR_LOG = ShapeLengthError ch shape\<rparr>
      | Inr st \<Rightarrow>
          \<lparr>exit_status = Completed,
            OUT_FILE = Some (map (\<lambda>line. line @ [NL]) (out_lines st)),
            ERR_LOG = Report (missing_pinyin st) (cannot_convert st) (length (out_lines st))\<rparr>)"

section \<open>Notions used to state the properties\<close>

text \<open>
  The alternatives of a part, and a set of parts without escape into the root map: no
  member is a root, and every alternative of a member, after the substitution pass, leads
  back into the set. The parts on a decomposition cycle that has no other way out form
  such a set.
\<close>

definition alternatives_of :: "decomposition \<Rightarrow> uchar \<Rightarrow> uchar list list" where
  "alternatives_of d part = (case map_of d [part] of None \<Rightarrow> [] | Some alts \<Rightarrow> alts)"

definition no_root_escape :: "decomposition \<Rightarrow> rootmap \<Rightarrow> uchar set \<Rightarrow> bool" where
  "no_root_escape d rm S =
     (\<forall>p\<in>S. rm p = None \<and>
        (\<forall>alt\<in>set (alternatives_of d p). \<exists>sp\<in>set (apply_replacements alt). sp \<in> S))"

text \<open>
  The table with every alternative replaced by its substituted form, and two runs of the
  resolver that return the same result, leave the same visited set and add the same
  parts to the set of missing roots, whatever that set was.
\<close>

definition normalise_table :: "decomposition \<Rightarrow> decomposition" where
  "normalise_table d = map (\<lambda>(k, alts). (k, map apply_replacements alts)) d"

definition same_run ::
    "(uchar set \<Rightarrow> uchar list option \<times> uchar set \<times> uchar set)
      \<Rightarrow> (uchar set \<Rightarrow> uchar list option \<times> uchar set \<times> uchar set) \<Rightarrow> bool" where
  "same_run f g = (\<exists>r v X. \<forall>m. f m = (r, v, m \<union> X) \<and> g m = (r, v, m \<union> X))"

text \<open>The adjacent pair \<open>a b\<close> occurs in a string.\<close>

fun has_pair :: "uchar \<Rightarrow> uchar \<Rightarrow> ustring \<Rightarrow> bool" where
  "has_pair a b (x # y # s) = ((x = a \<and> y = b) \<or> has_pair a b (y # s))"
| "has_pair a b s = False"

text \<open>
  The code of one alternative as a function of the alternative, the table and the root
  map alone, and a row of the output file.
\<close>

definition shape_code :: "uchar list \<Rightarrow> decomposition \<Rightarrow> rootmap \<Rightarrow> ustring option" where
  "shape_code parts d rm = fst (get_code_for_decomp parts d rm {} [] [])"

definition output_row :: "ustring \<Rightarrow> ustring \<Rightarrow> ustring" where
  "output_row char code = char @ [TAB] @ code @ [NL]"

text \<open>
  The rule of the deriver on the letters of a resolved sequence: nothing for no letter or
  one, the letters for two or three, the first three and the last for four or more.
\<close>

definition first_three_last :: "ustring \<Rightarrow> ustring option" where
  "first_three_last codes =
     (if codes = [] \<or> length codes = 1 then None
      else if 4 \<le> length codes then Some [codes ! 0, codes ! 1, codes ! 2, last codes]
      else Some codes)"

text \<open>
  A ring of \<open>n\<close> parts from U+4E00 on, each made of the next one and the last of the
  first, with the set of its parts.
\<close>

definition ring_start :: uchar where "ring_start = 0x4E00"

definition ring_table :: "nat \<Rightarrow> decomposition" where
  "ring_table n = map (\<lambda>i. ([ring_start + i], [[ring_start + Suc i mod n]])) [0..<n]"

definition ring_parts :: "nat \<Rightarrow> uchar set" where
  "ring_parts n = {ring_start + i | i. i < n}"

text \<open>A part that is not a key of the root map.\<close>

definition non_root :: "rootmap \<Rightarrow> uchar \<Rightarrow> bool" where
  "non_root rm part = (rm part = None)"

text \<open>
  Tables for the examples. The first is the scenario of the specification, with roots
  U+4E00 (G), U+53E3 (K), U+65E5 (J) and the character U+65E6 made of U+65E5 and U+4E00,
  and a second character U+660C written as U+65E6 twice; the cyclic table has U+7532
  made of U+4E59 and U+4E00, and U+4E59 made of U+7532. The second pair is one table
  before and after the substitution pass. In the third, the alternative of the part
  \<open>0x5A\<close> holds U+7518 twice, once inside a pair that the substitution pass rewrites.
  In the shared table the two alternatives of U+6619 both start with U+65E6, and the
  first one fails on U+4E91. In the last table U+67D0 is made of U+7519 and U+4E00, and
  U+7519 of the root U+7518, so that the expansion of U+7519 puts U+7518 in front of
  U+4E00.
\<close>

definition example_roots :: rootmap where
  "example_roots = [0x4E00 \<mapsto> 71, 0x53E3 \<mapsto> 75, 0x65E5 \<mapsto> 74]"

definition cyclic_table :: decomposition where
  "cyclic_table = [([0x7532], [[0x4E59, 0x4E00]]), ([0x4E59], [[0x7532]])]"

definition example_table :: decomposition where
  "example_table = [([0x65E6], [[0x65E5, 0x4E00]]), ([0x660C], [[0x65E6, 0x65E6]])]"

definition raw_table :: decomposition where
  "raw_table = [([0x57FA], [[0x7518, 0x4E00, 0x571F]]), ([0x571F], [[0x5341, 0x4E00]])]"

definition substituted_table :: decomposition where
  "substituted_table = [([0x57FA], [[0x5176, 0x4E0A, 0x571F]]), ([0x571F], [[0x5341, 0x4E00]])]"

definition substituted_roots :: rootmap where
  "substituted_roots = [0x5176 \<mapsto> 65, 0x4E0A \<mapsto> 66, 0x5341 \<mapsto> 67, 0x4E00 \<mapsto> 71]"

definition overlap_table :: decomposition where
  "overlap_table = [([0x5A], [[0x7518, 0x4E00, 0x7518]]), ([0x7518], [[0x5341]])]"

definition overlap_roots :: rootmap where
  "overlap_roots = [0x5176 \<mapsto> 65, 0x4E0A \<mapsto> 66, 0x5341 \<mapsto> 67]"

definition shared_table :: decomposition where
  "shared_table = [([0x6619], [[0x65E6, 0x4E91], [0x65E6, 0x4E00]]), ([0x65E6], [[0x65E5, 0x4E00]])]"

definition unsubstituted_table :: decomposition where
  "unsubstituted_table = [([0x67D0], [[0x7519, 0x4E00]]), ([0x7519], [[0x7518]])]"

definition unsubstituted_roots :: rootmap where
  "unsubstituted_roots = [0x7518 \<mapsto> 69, 0x4E00 \<mapsto> 71, 0x5176 \<mapsto> 65, 0x4E0A \<mapsto> 66]"

text \<open>
  A character of the shape table that has readings, and examples for the second stage:
  the letters of ASCII as \<open>isalpha\<close>, the same with U+00EA, a shape table in which the
  second character has a code of one letter, phonetic data for both characters and
  phonetic data for the first one only.
\<close>

definition has_readings :: "pinyin_map \<Rightarrow> ustring \<times> ustring list \<Rightarrow> bool" where
  "has_readings pm item = (readings pm (fst item) \<noteq> [])"

definition ascii_alpha :: "uchar \<Rightarrow> bool" where
  "ascii_alpha c = ((65 \<le> c \<and> c \<le> 90) \<or> (97 \<le> c \<and> c \<le> 122))"

definition example_shapes :: "(ustring \<times> ustring list) list" where
  "example_shapes = [([0x65E6], [ustr ''jg'']), ([0x660C], [ustr ''jj'', ustr ''j''])]"

definition example_pinyin :: pinyin_map where
  "example_pinyin = [[0x65E6] \<mapsto> [ustr ''dan''], [0x660C] \<mapsto> [ustr ''chang'']]"

definition partial_pinyin :: pinyin_map where
  "partial_pinyin = [[0x65E6] \<mapsto> [ustr ''dan'', ustr ''m'']]"

definition latin_alpha :: "uchar \<Rightarrow> bool" where
  "latin_alpha c = (ascii_alpha c \<or> c = 0xEA)"

section \<open>The visited set and the resolved roots\<close>

lemma visited_grows:
  "visited \<subseteq> fst (snd (expand_part part d rm visited missing))"
  "visited \<subseteq> fst (snd (expand_alternatives alts d rm visited missing))"
  "visited \<subseteq> fst (snd (expand_sub_parts sps expanded d rm visited missing))"
  by (rule visited_grows_dom [OF expand_total])+

lemma part_is_visited:
  assumes "rm part = None"
  shows "part \<in> fst (snd (expand_part part d rm visited missing))"
proof (cases "part \<in> visited")
  case True
  with assms show ?thesis by (simp add: expand_part.simps)
next
  case False
  show ?thesis
  proof (cases "map_of d [part]")
    case None
    with assms False show ?thesis by (simp add: expand_part.simps)
  next
    case (Some alts)
    from visited_grows(2) [of "insert part visited" alts d rm missing]
    have "part \<in> fst (snd (expand_alternatives alts d rm (insert part visited) missing))"
      by blast
    with assms False Some show ?thesis
      by (auto simp: expand_part.simps split: prod.splits option.splits)
  qed
qed

lemma resolved_in_rootmap:
  "expand_part part d rm visited missing = (Some res, v', m') \<Longrightarrow> set res \<subseteq> dom rm"
  "expand_alternatives alts d rm visited missing = (Some res, v', m') \<Longrightarrow> set res \<subseteq> dom rm"
  "expand_sub_parts sps expanded d rm visited missing = (Some res, v', m')
     \<Longrightarrow> set expanded \<subseteq> dom rm \<Longrightarrow> set res \<subseteq> dom rm"
proof (induct part d rm visited missing and alts d rm visited missing
    and sps expanded d rm visited missing
    arbitrary: res v' m' and res v' m' and res v' m'
    rule: expand_part_expand_alternatives_expand_sub_parts.induct)
  case (1 part d rm visited missing)
  show ?case
  proof (cases "rm part \<noteq> None")
    case True
    with 1(2) show ?thesis by (auto simp: expand_part.simps)
  next
    case False
    with 1 show ?thesis
      by (auto simp: expand_part.simps split: if_splits option.splits prod.splits)
  qed
next
  case (2 d rm visited missing)
  then show ?case by simp
next
  case (3 sub_parts rest d rm visited missing)
  show ?case
  proof (cases "expand_sub_parts (apply_replacements sub_parts) [] d rm visited missing")
    case (fields r v m)
    show ?thesis
    proof (cases r)
      case None
      with fields 3(2) [of r "(v, m)" v m res v' m'] 3(3) show ?thesis by simp
    next
      case (Some e)
      with fields 3(3) have "e = res" by simp
      with 3(1) [of res v m] fields Some show ?thesis by simp
    qed
  qed
next
  case (4 expanded d rm visited missing)
  then show ?case by simp
next
  case (5 sp sps expanded d rm visited missing)
  show ?case
  proof (cases "expand_part sp d rm visited missing")
    case (fields r v m)
    show ?thesis
    proof (cases r)
      case None
      with fields 5(3) show ?thesis by simp
    next
      case (Some e)
      with 5(1) [of e v m] fields have "set e \<subseteq> dom rm" by simp
      with 5(2) [of r "(v, m)" e v m res v' m'] fields Some 5(3,4) show ?thesis by simp
    qed
  qed
qed

section \<open>Termination of the resolver\<close>

lemma cycle_fails:
  "no_root_escape d rm S \<Longrightarrow> part \<in> S \<Longrightarrow> fst (expand_part part d rm visited missing) = None"
  "no_root_escape d rm S \<Longrightarrow> \<forall>alt\<in>set alts. \<exists>sp\<in>set (apply_replacements alt). sp \<in> S
     \<Longrightarrow> fst (expand_alternatives alts d rm visited missing) = None"
  "no_root_escape d rm S \<Longrightarrow> \<exists>sp\<in>set sps. sp \<in> S
     \<Longrightarrow> fst (expand_sub_parts sps expanded d rm visited missing) = None"
proof (induct part d rm visited missing and alts d rm visited missing
    and sps expanded d rm visited missing
    rule: expand_part_expand_alternatives_expand_sub_parts.induct)
  case (1 part d rm visited missing)
  from 1(2,3) have nr: "rm part = None"
    and alts: "\<forall>alt\<in>set (alternatives_of d part). \<exists>sp\<in>set (apply_replacements alt). sp \<in> S"
    unfolding no_root_escape_def by blast+
  show ?case
  proof (cases "part \<in> visited")
    case True
    with nr show ?thesis by (simp add: expand_part.simps)
  next
    case False
    show ?thesis
    proof (cases "map_of d [part]")
      case None
      with nr False show ?thesis by (simp add: expand_part.simps)
    next
      case (Some as)
      with alts have "\<forall>alt\<in>set as. \<exists>sp\<in>set (apply_replacements alt). sp \<in> S"
        by (simp add: alternatives_of_def)
      with 1(1) [of as] nr False Some 1(2)
      have "fst (expand_alternatives as d rm (insert part visited) missing) = None"
        by simp
      with nr False Some show ?thesis
        by (auto simp: expand_part.simps split: prod.splits option.splits)
    qed
  qed
next
  case (2 d rm visited missing)
  show ?case by simp
next
  case (3 sub_parts rest d rm visited missing)
  from 3(3,4) have "fst (expand_sub_parts (apply_replacements sub_parts) [] d rm visited missing) = None"
    by (intro 3(1)) auto
  moreover from 3(2) 3(3,4) have "\<And>v m. expand_sub_parts (apply_replacements sub_parts) [] d rm visited missing = (None, v, m)
      \<Longrightarrow> fst (expand_alternatives rest d rm v m) = None"
    by simp
  ultimately show ?case
    by (auto split: prod.splits option.splits)
next
  case (4 expanded d rm visited missing)
  then show ?case by simp
next
  case (5 sp sps expanded d rm visited missing)
  show ?case
  proof (cases "sp \<in> S")
    case True
    with 5(1,3) have "fst (expand_part sp d rm visited missing) = None" by simp
    then show ?thesis by (auto split: prod.splits option.splits)
  next
    case False
    with 5(4) have "\<exists>sp\<in>set sps. sp \<in> S" by auto
    with 5(2,3) show ?thesis by (auto split: prod.splits option.splits)
  qed
qed

lemma visited_no_roots:
  "visited \<inter> dom rm = {} \<Longrightarrow> fst (snd (expand_part part d rm visited missing)) \<inter> dom rm = {}"
  "visited \<inter> dom rm = {}
     \<Longrightarrow> fst (snd (expand_alternatives alts d rm visited missing)) \<inter> dom rm = {}"
  "visited \<inter> dom rm = {}
     \<Longrightarrow> fst (snd (expand_sub_parts sps expanded d rm visited missing)) \<inter> dom rm = {}"
proof (induct part d rm visited missing and alts d rm visited missing
    and sps expanded d rm visited missing
    rule: expand_part_expand_alternatives_expand_sub_parts.induct)
  case (1 part d rm visited missing)
  show ?case
  proof (cases "rm part \<noteq> None \<or> part \<in> visited")
    case True
    with 1(2) show ?thesis by (auto simp: expand_part.simps)
  next
    case False
    show ?thesis
    proof (cases "map_of d [part]")
      case None
      with False 1(2) show ?thesis by (auto simp: expand_part.simps)
    next
      case (Some alts)
      from False 1(2) have "insert part visited \<inter> dom rm = {}" by auto
      with 1(1) [of alts] False Some
      have "fst (snd (expand_alternatives alts d rm (insert part visited) missing)) \<inter> dom rm = {}"
        by simp
      with False Some show ?thesis
        by (auto simp: expand_part.simps split: prod.splits option.splits)
    qed
  qed
next
  case (2 d rm visited missing)
  then show ?case by simp
next
  case (3 sub_parts rest d rm visited missing)
  obtain r v m where run:
    "expand_sub_parts (apply_replacements sub_parts) [] d rm visited missing = (r, v, m)"
    by (cases "expand_sub_parts (apply_replacements sub_parts) [] d rm visited missing")
  with 3(1) [OF 3(3)] have v: "v \<inter> dom rm = {}" by simp
  show ?case
  proof (cases r)
    case None
    with 3(2) [of r "(v, m)" v m] run v show ?thesis by simp
  next
    case (Some e)
    with run v show ?thesis by simp
  qed
next
  case (4 expanded d rm visited missing)
  then show ?case by simp
next
  case (5 sp sps expanded d rm visited missing)
  obtain r v m where run: "expand_part sp d rm visited missing = (r, v, m)"
    by (cases "expand_part sp d rm visited missing")
  with 5(1) [OF 5(3)] have v: "v \<inter> dom rm = {}" by simp
  show ?case
  proof (cases r)
    case None
    with run v show ?thesis by simp
  next
    case (Some e)
    with 5(2) [of r "(v, m)" e v m] run v show ?thesis by simp
  qed
qed

lemma expand_limited_refines:
  "expand_part_limited frames part d rm visited missing = Inr r
     \<Longrightarrow> r = expand_part part d rm visited missing"
  "expand_alternatives_limited frames alts d rm visited missing = Inr r
     \<Longrightarrow> r = expand_alternatives alts d rm visited missing"
  "expand_sub_parts_limited frames sps expanded d rm visited missing = Inr r
     \<Longrightarrow> r = expand_sub_parts sps expanded d rm visited missing"
proof (induct frames part d rm visited missing and frames alts d rm visited missing
    and frames sps expanded d rm visited missing
    arbitrary: r and r and r
    rule: expand_part_limited_expand_alternatives_limited_expand_sub_parts_limited.induct)
  case (1 part d rm visited missing)
  then show ?case by simp
next
  case (2 frames part d rm visited missing)
  show ?case
  proof (cases "rm part \<noteq> None \<or> part \<in> visited")
    case True
    with 2(2) show ?thesis
      by (auto simp: expand_part_limited.simps(2) expand_part.simps split: if_splits)
  next
    case False
    show ?thesis
    proof (cases "map_of d [part]")
      case None
      with False 2(2) show ?thesis
        by (auto simp: expand_part_limited.simps(2) expand_part.simps)
    next
      case (Some alts)
      from 2(2) False Some obtain r'
        where inner: "expand_alternatives_limited frames alts d rm (insert part visited) missing
            = Inr r'"
        by (auto simp: expand_part_limited.simps(2) split: sum.splits)
      from 2(1) [OF _ _ Some inner] False
      have "r' = expand_alternatives alts d rm (insert part visited) missing" by simp
      with 2(2) False Some inner show ?thesis
        by (auto simp: expand_part_limited.simps(2) expand_part.simps
            split: prod.splits option.splits)
    qed
  qed
next
  case (3 frames d rm visited missing)
  then show ?case by simp
next
  case (4 frames sub_parts rest d rm visited missing)
  from 4(3) have pos: "frames \<noteq> 0" by (auto split: if_splits)
  from 4(3) pos obtain r'
    where inner: "expand_sub_parts_limited frames (apply_replacements sub_parts) [] d rm
        visited missing = Inr r'"
    by (auto split: sum.splits)
  from 4(1) [OF pos inner]
  have r': "r' = expand_sub_parts (apply_replacements sub_parts) [] d rm visited missing" .
  obtain x v m where f: "r' = (x, v, m)" by (cases r')
  show ?case
  proof (cases x)
    case None
    with 4(3) pos inner f have "expand_alternatives_limited frames rest d rm v m = Inr r"
      by simp
    from 4(2) [OF pos inner _ _ _ this, of x "(v, m)"] f None
    have "r = expand_alternatives rest d rm v m" by simp
    moreover from r' f None
    have "expand_sub_parts (apply_replacements sub_parts) [] d rm visited missing = (None, v, m)"
      by simp
    ultimately show ?thesis by simp
  next
    case (Some e)
    with r' f
    have "expand_sub_parts (apply_replacements sub_parts) [] d rm visited missing = (Some e, v, m)"
      by simp
    moreover from 4(3) pos inner f Some have "r = (Some e, v, m)" by simp
    ultimately show ?thesis by simp
  qed
next
  case (5 frames expanded d rm visited missing)
  then show ?case by simp
next
  case (6 frames sp sps expanded d rm visited missing)
  from 6(3) obtain r'
    where inner: "expand_part_limited frames sp d rm visited missing = Inr r'"
    by (auto split: sum.splits)
  from 6(1) [OF inner] have r': "r' = expand_part sp d rm visited missing" .
  obtain x v m where f: "r' = (x, v, m)" by (cases r')
  show ?case
  proof (cases x)
    case None
    with r' f have "expand_part sp d rm visited missing = (None, v, m)" by simp
    moreover from 6(3) inner f None have "r = (None, v, m)" by simp
    ultimately show ?thesis by simp
  next
    case (Some e)
    with 6(3) inner f
    have "expand_sub_parts_limited frames sps (expanded @ e) d rm v m = Inr r" by simp
    from 6(2) [OF inner _ _ _ this, of x "(v, m)"] f Some
    have "r = expand_sub_parts sps (expanded @ e) d rm v m" by simp
    moreover from r' f Some
    have "expand_part sp d rm visited missing = (Some e, v, m)" by simp
    ultimately show ?thesis by simp
  qed
qed

lemma expand_limited_enough:
  "unvisited d visited < frames
     \<Longrightarrow> expand_part_limited frames part d rm visited missing
       = Inr (expand_part part d rm visited missing)"
  "unvisited d visited < frames
     \<Longrightarrow> expand_alternatives_limited frames alts d rm visited missing
       = Inr (expand_alternatives alts d rm visited missing)"
  "unvisited d visited < frames
     \<Longrightarrow> expand_sub_parts_limited frames sps expanded d rm visited missing
       = Inr (expand_sub_parts sps expanded d rm visited missing)"
proof (induct part d rm visited missing and alts d rm visited missing
    and sps expanded d rm visited missing
    arbitrary: frames and frames and frames
    rule: expand_part_expand_alternatives_expand_sub_parts.induct)
  case (1 part d rm visited missing)
  from 1(2) obtain f where frames: "frames = Suc f" by (cases frames) auto
  show ?case
  proof (cases "rm part \<noteq> None \<or> part \<in> visited")
    case True
    then show ?thesis
      unfolding frames by (auto simp: expand_part_limited.simps(2) expand_part.simps)
  next
    case False
    show ?thesis
    proof (cases "map_of d [part]")
      case None
      with False show ?thesis
        unfolding frames by (auto simp: expand_part_limited.simps(2) expand_part.simps)
    next
      case (Some alts)
      from Some False have "unvisited d (insert part visited) < unvisited d visited"
        by (intro unvisited_insert map_of_decomposition_parts) auto
      with 1(2) frames have "unvisited d (insert part visited) < f" by simp
      from 1(1) [OF _ _ Some this] False
      have "expand_alternatives_limited f alts d rm (insert part visited) missing
          = Inr (expand_alternatives alts d rm (insert part visited) missing)"
        by simp
      with False Some show ?thesis
        unfolding frames
        by (auto simp: expand_part_limited.simps(2) expand_part.simps
            split: prod.splits option.splits)
    qed
  qed
next
  case (2 d rm visited missing)
  show ?case by simp
next
  case (3 sub_parts rest d rm visited missing)
  from 3(3) have pos: "frames \<noteq> 0" by simp
  obtain x v m where run:
    "expand_sub_parts (apply_replacements sub_parts) [] d rm visited missing = (x, v, m)"
    by (cases "expand_sub_parts (apply_replacements sub_parts) [] d rm visited missing")
  from 3(1) [OF 3(3)] run
  have inner: "expand_sub_parts_limited frames (apply_replacements sub_parts) [] d rm
      visited missing = Inr (x, v, m)"
    by simp
  show ?case
  proof (cases x)
    case None
    from visited_grows(3) [of visited "apply_replacements sub_parts" "[]" d rm missing] run
    have "visited \<subseteq> v" by simp
    from unvisited_mono [OF this, of d] 3(3) have "unvisited d v < frames" by simp
    from 3(2) [OF run [symmetric] None refl this]
    have "expand_alternatives_limited frames rest d rm v m
        = Inr (expand_alternatives rest d rm v m)" .
    with pos inner run None show ?thesis by simp
  next
    case (Some e)
    with pos inner run show ?thesis by simp
  qed
next
  case (4 expanded d rm visited missing)
  show ?case by simp
next
  case (5 sp sps expanded d rm visited missing)
  obtain x v m where run: "expand_part sp d rm visited missing = (x, v, m)"
    by (cases "expand_part sp d rm visited missing")
  from 5(1) [OF 5(3)] run
  have inner: "expand_part_limited frames sp d rm visited missing = Inr (x, v, m)"
    by simp
  show ?case
  proof (cases x)
    case None
    with inner run show ?thesis by simp
  next
    case (Some e)
    from visited_grows(1) [of visited sp d rm missing] run
    have "visited \<subseteq> v" by simp
    from unvisited_mono [OF this, of d] 5(3) have "unvisited d v < frames" by simp
    from 5(2) [OF run [symmetric] Some refl this]
    have "expand_sub_parts_limited frames sps (expanded @ e) d rm v m
        = Inr (expand_sub_parts sps (expanded @ e) d rm v m)" .
    with inner run Some show ?thesis by simp
  qed
qed

lemma apply_replacements_single: "apply_replacements [x] = [x]"
  by (simp add: apply_replacements_def REPLACEMENTS_def str_replace.simps startswith_def)

lemma ring_lookup:
  assumes "k < n"
  shows "map_of (ring_table n) [ring_start + k] = Some [[ring_start + Suc k mod n]]"
proof -
  have "distinct (map fst (ring_table n))"
    by (simp add: ring_table_def distinct_map comp_def inj_on_def)
  moreover from assms
  have "([ring_start + k], [[ring_start + Suc k mod n]]) \<in> set (ring_table n)"
    by (auto simp: ring_table_def)
  ultimately show ?thesis by simp
qed

lemma limited_chain_step:
  assumes "rm part = None" and "part \<notin> visited" and "map_of d [part] = Some [[successor]]"
    and "expand_part_limited frames successor d rm (insert part visited) missing
      = Inl RecursionError"
  shows "expand_part_limited (Suc frames) part d rm visited missing = Inl RecursionError"
proof (cases "frames = 0")
  case True
  with assms(1-3) show ?thesis
    by (simp add: expand_part_limited.simps(2) [where part = part and visited = visited])
next
  case False
  with assms show ?thesis
    by (simp add: expand_part_limited.simps(2) [where part = part and visited = visited]
        apply_replacements_single)
qed

lemma ring_overflow:
  "k + frames \<le> n
     \<Longrightarrow> expand_part_limited frames (ring_start + k) (ring_table n) Map.empty
          (ring_parts k) missing = Inl RecursionError"
proof (induction frames arbitrary: k missing)
  case 0
  show ?case by simp
next
  case (Suc f)
  then have k: "k < n" by simp
  have fresh: "ring_start + k \<notin> ring_parts k"
    by (auto simp: ring_parts_def)
  have next_visited: "insert (ring_start + k) (ring_parts k) = ring_parts (Suc k)"
    by (auto simp: ring_parts_def less_Suc_eq)
  have inner: "expand_part_limited f (ring_start + Suc k mod n) (ring_table n) Map.empty
      (insert (ring_start + k) (ring_parts k)) missing = Inl RecursionError"
  proof (cases f)
    case 0
    then show ?thesis by simp
  next
    case (Suc f')
    with Suc.prems have "Suc k < n" by simp
    then have wrap: "Suc k mod n = Suc k" by simp
    from Suc.prems have "Suc k + f \<le> n" by simp
    from Suc.IH [OF this] show ?thesis
      unfolding wrap next_visited by simp
  qed
  show ?case
    by (rule limited_chain_step [OF _ fresh ring_lookup [OF k] inner]) simp
qed

lemma ring_no_escape: "no_root_escape (ring_table n) Map.empty (ring_parts n)"
  unfolding no_root_escape_def
proof (intro ballI conjI)
  fix p alt
  assume "p \<in> ring_parts n"
  then obtain k where k: "k < n" "p = ring_start + k"
    unfolding ring_parts_def by blast
  show "Map.empty p = None" by simp
  assume "alt \<in> set (alternatives_of (ring_table n) p)"
  with ring_lookup [OF k(1)] k(2) have alt: "alt = [ring_start + Suc k mod n]"
    by (simp add: alternatives_of_def)
  from k(1) have "Suc k mod n < n" by simp
  then have "ring_start + Suc k mod n \<in> ring_parts n"
    unfolding ring_parts_def by blast
  then show "\<exists>sp\<in>set (apply_replacements alt). sp \<in> ring_parts n"
    by (simp add: alt apply_replacements_single)
qed

text \<open>
  C2 (as amended): the resolver terminates for every part, every table (cyclic or not),
  every root map and every state of the two sets: each call is in the domain of the
  recursion, and under the recursion limit a call either raises \<open>RecursionError\<close> or
  returns what \<open>expand_part\<close> returns. It returns whenever the keys of the table that
  are not yet visited are fewer than the frames that are free. Then a part of a set
  without escape into the root map resolves to failure. The visited set never holds a root
  when it starts without one, as the empty set of a top-level resolution does; then a part
  that is already in the visited set fails at once, with one frame, leaving both sets as
  they were.
\<close>

theorem expand_part_terminates:
  "(expand_part_limited frames part d rm visited missing = Inl RecursionError
      \<or> expand_part_limited frames part d rm visited missing
          = Inr (expand_part part d rm visited missing))
   \<and> expand_part_expand_alternatives_expand_sub_parts_dom (Inl (part, d, rm, visited, missing))
   \<and> (unvisited d visited < frames \<longrightarrow>
        expand_part_limited frames part d rm visited missing
          = Inr (expand_part part d rm visited missing))
   \<and> (no_root_escape d rm S \<longrightarrow> part \<in> S \<longrightarrow>
        fst (expand_part part d rm visited missing) = None
        \<and> (unvisited d visited < frames \<longrightarrow>
            (\<exists>visited' missing'. expand_part_limited frames part d rm visited missing
              = Inr (None, visited', missing'))))
   \<and> (visited \<inter> dom rm = {} \<longrightarrow>
        fst (snd (expand_part part d rm visited missing)) \<inter> dom rm = {}
        \<and> (part \<in> visited \<longrightarrow>
            expand_part part d rm visited missing = (None, visited, missing)
            \<and> (0 < frames \<longrightarrow> expand_part_limited frames part d rm visited missing
                  = Inr (None, visited, missing))))"
proof (intro conjI impI)
  show "expand_part_limited frames part d rm visited missing = Inl RecursionError
      \<or> expand_part_limited frames part d rm visited missing
          = Inr (expand_part part d rm visited missing)"
  proof (cases "expand_part_limited frames part d rm visited missing")
    case (Inl e)
    then show ?thesis by (cases e) simp
  next
    case (Inr r)
    with expand_limited_refines(1) [OF Inr] show ?thesis by simp
  qed
  show "expand_part_expand_alternatives_expand_sub_parts_dom
      (Inl (part, d, rm, visited, missing))"
    by (rule expand_total)
  show "expand_part_limited frames part d rm visited missing
      = Inr (expand_part part d rm visited missing)" if "unvisited d visited < frames"
    using that by (rule expand_limited_enough(1))
next
  assume cycle: "no_root_escape d rm S" "part \<in> S"
  then show none: "fst (expand_part part d rm visited missing) = None"
    by (rule cycle_fails(1))
  assume "unvisited d visited < frames"
  then have "expand_part_limited frames part d rm visited missing
      = Inr (expand_part part d rm visited missing)"
    by (rule expand_limited_enough(1))
  with none show "\<exists>visited' missing'. expand_part_limited frames part d rm visited missing
      = Inr (None, visited', missing')"
    by (cases "expand_part part d rm visited missing") auto
next
  assume "visited \<inter> dom rm = {}"
  then show "fst (snd (expand_part part d rm visited missing)) \<inter> dom rm = {}"
    by (rule visited_no_roots(1))
next
  assume "visited \<inter> dom rm = {}" and "part \<in> visited"
  then have root: "rm part = None" by auto
  with \<open>part \<in> visited\<close>
  show "expand_part part d rm visited missing = (None, visited, missing)"
    by (simp add: expand_part.simps)
  assume "0 < frames"
  then obtain f where "frames = Suc f" by (cases frames) auto
  with root \<open>part \<in> visited\<close>
  show "expand_part_limited frames part d rm visited missing = Inr (None, visited, missing)"
    by (simp add: expand_part_limited.simps(2))
qed

theorem expand_part_terminates_witness:
  "no_root_escape cyclic_table example_roots {0x7532, 0x4E59}
   \<and> unvisited cyclic_table {} < 3
   \<and> expand_part_limited 3 0x7532 cyclic_table example_roots {} {}
       = Inr (None, {0x7532, 0x4E59}, {0x7532, 0x4E59})
   \<and> expand_part 0x7532 cyclic_table example_roots {} {}
       = (None, {0x7532, 0x4E59}, {0x7532, 0x4E59})
   \<and> expand_part_limited 2 0x7532 cyclic_table example_roots {} {} = Inl RecursionError
   \<and> {0x7532} \<inter> dom example_roots = {}
   \<and> expand_part_limited 1 0x7532 cyclic_table example_roots {0x7532} {}
       = Inr (None, {0x7532}, {})"
proof -
  have ar: "apply_replacements [0x4E59, 0x4E00] = [0x4E59, 0x4E00]"
    "apply_replacements [0x7532] = [0x7532]"
    by (simp_all add: apply_replacements_def REPLACEMENTS_def str_replace.simps startswith_def)
  have cycle: "no_root_escape cyclic_table example_roots {0x7532, 0x4E59}"
    by (simp add: no_root_escape_def alternatives_of_def cyclic_table_def example_roots_def ar)
  have "decomposition_parts cyclic_table = {0x7532, 0x4E59}"
    by (auto simp: decomposition_parts_def cyclic_table_def)
  then have few: "unvisited cyclic_table {} < 3"
    by (simp add: unvisited_def)
  have fresh: "{0x7532} \<inter> dom example_roots = {}"
    by (simp add: example_roots_def)
  have run: "expand_part 0x7532 cyclic_table example_roots {} {}
      = (None, {0x7532, 0x4E59}, {0x7532, 0x4E59})"
    by (simp add: cyclic_table_def example_roots_def ar expand_part.simps insert_commute)
  have short: "expand_part_limited 2 0x7532 cyclic_table example_roots {} {}
      = Inl RecursionError"
    by (simp add: cyclic_table_def example_roots_def ar expand_part_limited.simps(2)
        numeral_2_eq_2)
  show ?thesis
    using cycle few fresh run short
      expand_part_terminates [where part = "0x7532" and d = cyclic_table
        and rm = example_roots and visited = "{}" and missing = "{}"
        and S = "{0x7532, 0x4E59}" and frames = 3]
      expand_part_terminates [where part = "0x7532" and d = cyclic_table
        and rm = example_roots and visited = "{0x7532}" and missing = "{}" and S = "{}"
        and frames = 1]
    by simp
qed

text \<open>
  The claim as stated fails on a cycle that is deeper than the recursion limit: on the
  ring of 1200 parts, none of them a root, the resolution of the first part with 1000
  frames free does not return \<open>None\<close> but raises \<open>RecursionError\<close>.
\<close>

theorem deep_cycle_counterexample:
  "no_root_escape (ring_table 1200) Map.empty (ring_parts 1200)
   \<and> ring_start \<in> ring_parts 1200
   \<and> expand_part_limited 1000 ring_start (ring_table 1200) Map.empty {} {}
     = Inl RecursionError"
proof -
  have "ring_start \<in> ring_parts 1200"
    unfolding ring_parts_def by (intro CollectI exI [of _ 0]) simp
  moreover have "ring_parts 0 = {}"
    by (simp add: ring_parts_def)
  with ring_overflow [of 0 1000 1200 "{}"]
  have "expand_part_limited 1000 ring_start (ring_table 1200) Map.empty {} {}
      = Inl RecursionError"
    by simp
  ultimately show ?thesis
    using ring_no_escape [of 1200] by simp
qed

section \<open>Runs that agree\<close>

lemma same_runI:
  "(\<And>m. f m = (r, v, m \<union> X)) \<Longrightarrow> (\<And>m. g m = (r, v, m \<union> X)) \<Longrightarrow> same_run f g"
  unfolding same_run_def by blast

lemma map_of_normalise_table:
  "map_of (normalise_table d) k = map_option (map apply_replacements) (map_of d k)"
  unfolding normalise_table_def by (induct d) auto

lemma normalise_table_lookup:
  assumes "normalise_table d = normalise_table d'"
  shows "map_option (map apply_replacements) (map_of d k)
    = map_option (map apply_replacements) (map_of d' k)"
  using assms map_of_normalise_table by metis

lemma expand_same_run:
  "normalise_table d = normalise_table d'
     \<Longrightarrow> same_run (expand_part part d rm visited) (expand_part part d' rm visited)"
  "normalise_table d = normalise_table d'
     \<Longrightarrow> map apply_replacements alts = map apply_replacements alts'
     \<Longrightarrow> same_run (expand_alternatives alts d rm visited) (expand_alternatives alts' d' rm visited)"
  "normalise_table d = normalise_table d'
     \<Longrightarrow> same_run (expand_sub_parts sps expanded d rm visited)
          (expand_sub_parts sps expanded d' rm visited)"
proof (induct part d rm visited "missing :: uchar set"
    and alts d rm visited "missing :: uchar set"
    and sps expanded d rm visited "missing :: uchar set"
    arbitrary: d' and d' alts' and d'
    rule: expand_part_expand_alternatives_expand_sub_parts.induct)
  case (1 part d rm visited missing)
  note nt = \<open>normalise_table d = normalise_table d'\<close>
  show ?case
  proof (cases "rm part \<noteq> None \<or> part \<in> visited")
    case True
    show ?thesis
    proof (cases "rm part \<noteq> None")
      case True
      then show ?thesis
        by (intro same_runI [where X = "{}" and r = "Some [part]"])
          (auto simp: expand_part.simps)
    next
      case False
      with True show ?thesis
        by (intro same_runI [where X = "{}" and r = None]) (auto simp: expand_part.simps)
    qed
  next
    case False
    show ?thesis
    proof (cases "map_of d [part]")
      case None
      with normalise_table_lookup [OF nt, of "[part]"] have "map_of d' [part] = None"
        by simp
      with None False show ?thesis
        by (intro same_runI [where X = "{part}"]) (auto simp: expand_part.simps)
    next
      case (Some alts)
      with normalise_table_lookup [OF nt, of "[part]"] obtain alts'
        where Some': "map_of d' [part] = Some alts'"
          and eq: "map apply_replacements alts = map apply_replacements alts'"
        by (cases "map_of d' [part]") auto
      from False Some have "same_run (expand_alternatives alts d rm (insert part visited))
          (expand_alternatives alts' d' rm (insert part visited))"
        by (intro 1(1) nt eq) auto
      then obtain r v X
        where a: "\<And>m. expand_alternatives alts d rm (insert part visited) m = (r, v, m \<union> X)"
          and b: "\<And>m. expand_alternatives alts' d' rm (insert part visited) m = (r, v, m \<union> X)"
        unfolding same_run_def by blast
      show ?thesis
      proof (cases r)
        case None
        with False Some Some' a b show ?thesis
          by (intro same_runI [where X = "insert part X"]) (auto simp: expand_part.simps)
      next
        case (Some e)
        with False \<open>map_of d [part] = Some alts\<close> Some' a b show ?thesis
          by (intro same_runI [where X = X]) (auto simp: expand_part.simps)
      qed
    qed
  qed
next
  case (2 d rm visited missing)
  then show ?case
    by (intro same_runI [where X = "{}"]) auto
next
  case (3 sub_parts rest d rm visited missing)
  note nt = \<open>normalise_table d = normalise_table d'\<close>
  from 3(4) obtain sub_parts' rest'
    where alts': "alts' = sub_parts' # rest'"
      and sub: "apply_replacements sub_parts = apply_replacements sub_parts'"
      and rest: "map apply_replacements rest = map apply_replacements rest'"
    by (cases alts') auto
  from 3(1) [OF nt] obtain r v X
    where a: "\<And>m. expand_sub_parts (apply_replacements sub_parts) [] d rm visited m = (r, v, m \<union> X)"
      and b: "\<And>m. expand_sub_parts (apply_replacements sub_parts) [] d' rm visited m = (r, v, m \<union> X)"
    unfolding same_run_def by blast
  show ?case
  proof (cases r)
    case None
    from 3(2) [of r "(v, missing \<union> X)" v "missing \<union> X", OF _ _ _ nt rest] a None
    have "same_run (expand_alternatives rest d rm v) (expand_alternatives rest' d' rm v)"
      by simp
    then obtain r2 v2 X2
      where c: "\<And>m. expand_alternatives rest d rm v m = (r2, v2, m \<union> X2)"
        and e: "\<And>m. expand_alternatives rest' d' rm v m = (r2, v2, m \<union> X2)"
      unfolding same_run_def by blast
    from None a b c e sub show ?thesis
      unfolding alts'
      by (intro same_runI [where X = "X \<union> X2"]) (auto simp: Un_assoc)
  next
    case (Some e)
    with a b sub show ?thesis
      unfolding alts'
      by (intro same_runI [where X = X]) auto
  qed
next
  case (4 expanded d rm visited missing)
  then show ?case
    by (intro same_runI [where X = "{}"]) auto
next
  case (5 sp sps expanded d rm visited missing)
  note nt = \<open>normalise_table d = normalise_table d'\<close>
  from 5(1) [OF nt] obtain r v X
    where a: "\<And>m. expand_part sp d rm visited m = (r, v, m \<union> X)"
      and b: "\<And>m. expand_part sp d' rm visited m = (r, v, m \<union> X)"
    unfolding same_run_def by blast
  show ?case
  proof (cases r)
    case None
    with a b show ?thesis
      by (intro same_runI [where X = X]) auto
  next
    case (Some e)
    from 5(2) [of r "(v, missing \<union> X)" e v "missing \<union> X", OF _ _ _ nt] a Some
    have "same_run (expand_sub_parts sps (expanded @ e) d rm v)
        (expand_sub_parts sps (expanded @ e) d' rm v)"
      by simp
    then obtain r2 v2 X2
      where c: "\<And>m. expand_sub_parts sps (expanded @ e) d rm v m = (r2, v2, m \<union> X2)"
        and f: "\<And>m. expand_sub_parts sps (expanded @ e) d' rm v m = (r2, v2, m \<union> X2)"
      unfolding same_run_def by blast
    from Some a b c f show ?thesis
      by (intro same_runI [where X = "X \<union> X2"]) (auto simp: Un_assoc)
  qed
qed

section \<open>A sub-part that occurs twice\<close>

lemma visited_sub_part_fails:
  "p \<in> set sps \<Longrightarrow> rm p = None \<Longrightarrow> p \<in> visited
     \<Longrightarrow> fst (expand_sub_parts sps expanded d rm visited missing) = None"
proof (induction sps arbitrary: expanded visited missing)
  case Nil
  then show ?case by simp
next
  case (Cons sp rest)
  obtain r v m where run: "expand_part sp d rm visited missing = (r, v, m)"
    by (cases "expand_part sp d rm visited missing")
  show ?case
  proof (cases r)
    case None
    with run show ?thesis by simp
  next
    case (Some e)
    have "p \<noteq> sp"
    proof
      assume "p = sp"
      with Cons.prems have "expand_part sp d rm visited missing = (None, visited, missing)"
        by (simp add: expand_part.simps)
      with run Some show False by simp
    qed
    with Cons.prems have "p \<in> set rest" by simp
    moreover from visited_grows(1) [of visited sp d rm missing] run Cons.prems have "p \<in> v"
      by auto
    ultimately have "fst (expand_sub_parts rest (expanded @ e) d rm v m) = None"
      using Cons.prems(2) by (intro Cons.IH)
    with run Some show ?thesis by simp
  qed
qed

lemma repeated_sub_part_fails:
  "\<not> distinct (filter (\<lambda>sp. rm sp = None) sps)
     \<Longrightarrow> fst (expand_sub_parts sps expanded d rm visited missing) = None"
proof (induction sps arbitrary: expanded visited missing)
  case Nil
  then show ?case by simp
next
  case (Cons sp rest)
  obtain r v m where run: "expand_part sp d rm visited missing = (r, v, m)"
    by (cases "expand_part sp d rm visited missing")
  show ?case
  proof (cases r)
    case None
    with run show ?thesis by simp
  next
    case (Some e)
    show ?thesis
    proof (cases "rm sp = None \<and> sp \<in> set rest")
      case True
      from part_is_visited [of rm sp d visited missing] True run have "sp \<in> v"
        by simp
      with True have "fst (expand_sub_parts rest (expanded @ e) d rm v m) = None"
        by (intro visited_sub_part_fails [of sp]) auto
      with run Some show ?thesis by simp
    next
      case False
      with Cons.prems have "\<not> distinct (filter (\<lambda>sp. rm sp = None) rest)"
        by (auto split: if_splits)
      then have "fst (expand_sub_parts rest (expanded @ e) d rm v m) = None"
        by (rule Cons.IH)
      with run Some show ?thesis by simp
    qed
  qed
qed

lemma visited_blocks_alternatives:
  "\<forall>alt\<in>set alts. \<exists>q\<in>set (apply_replacements alt). rm q = None \<and> q \<in> visited
     \<Longrightarrow> fst (expand_alternatives alts d rm visited missing) = None"
proof (induction alts arbitrary: visited missing)
  case Nil
  show ?case by simp
next
  case (Cons alt rest)
  obtain r v m where run:
    "expand_sub_parts (apply_replacements alt) [] d rm visited missing = (r, v, m)"
    by (cases "expand_sub_parts (apply_replacements alt) [] d rm visited missing")
  from Cons.prems obtain q where q: "q \<in> set (apply_replacements alt)" "rm q = None"
      "q \<in> visited"
    by auto
  from visited_sub_part_fails [where p = q and rm = rm, OF q, of "[]" d missing] run
  have r: "r = None" by simp
  from visited_grows(3) [of visited "apply_replacements alt" "[]" d rm missing] run
  have "visited \<subseteq> v" by simp
  with Cons.prems
  have "\<forall>alt\<in>set rest. \<exists>q\<in>set (apply_replacements alt). rm q = None \<and> q \<in> v"
    by (metis list.set_intros(2) subsetD)
  from Cons.IH [OF this, of m] run r show ?case by simp
qed

text \<open>
  C9 (as amended): the visited set handed back by \<open>expand_part\<close>, by the loop over the
  sub-parts and by the loop over the alternatives contains the one it was given, whether
  the expansion fails or succeeds, and it contains the part itself when the part is not a
  root. The set left by one sub-part is kept for the sub-parts after it, and the set left
  by one alternative, failed or not, for the alternatives after it; the set left by the
  alternatives of a part is the one that \<open>expand_part\<close> hands back. Consequently a
  sequence that holds a non-root sub-part which is already visited does not resolve; an
  alternative whose sequence after the substitution pass holds the same non-root sub-part
  twice does not resolve; and when an alternative has failed, the alternatives after it
  that hold a non-root sub-part visited by then fail as well.
\<close>

theorem visited_parts_stay_visited:
  "visited \<subseteq> fst (snd (expand_part part d rm visited missing))
   \<and> (non_root rm part \<longrightarrow> part \<in> fst (snd (expand_part part d rm visited missing)))
   \<and> (\<not> distinct (filter (non_root rm) (apply_replacements sub_parts)) \<longrightarrow>
        fst (expand_sub_parts (apply_replacements sub_parts) [] d rm visited missing) = None
        \<and> fst (expand_alternatives [sub_parts] d rm visited missing) = None)
   \<and> visited \<subseteq> fst (snd (expand_sub_parts sps expanded d rm visited missing))
   \<and> visited \<subseteq> fst (snd (expand_alternatives alts d rm visited missing))
   \<and> fst (snd (expand_part part d rm visited missing))
        \<subseteq> fst (snd (expand_sub_parts (part # sps) expanded d rm visited missing))
   \<and> fst (snd (expand_sub_parts (apply_replacements sub_parts) [] d rm visited missing))
        \<subseteq> fst (snd (expand_alternatives (sub_parts # alts) d rm visited missing))
   \<and> ((\<exists>q\<in>set sps. non_root rm q \<and> q \<in> visited) \<longrightarrow>
        fst (expand_sub_parts sps expanded d rm visited missing) = None)
   \<and> (fst (expand_sub_parts (apply_replacements sub_parts) [] d rm visited missing) = None \<longrightarrow>
        (\<forall>alt\<in>set alts. \<exists>q\<in>set (apply_replacements alt). non_root rm q
            \<and> q \<in> fst (snd (expand_sub_parts (apply_replacements sub_parts) [] d rm
                  visited missing))) \<longrightarrow>
        fst (expand_alternatives (sub_parts # alts) d rm visited missing) = None)
   \<and> (non_root rm part \<longrightarrow> part \<notin> visited \<longrightarrow> map_of d [part] = Some alts \<longrightarrow>
        fst (snd (expand_part part d rm visited missing))
          = fst (snd (expand_alternatives alts d rm (insert part visited) missing)))"
proof (intro conjI impI)
  show "visited \<subseteq> fst (snd (expand_part part d rm visited missing))"
    by (rule visited_grows(1))
  show "fst (snd (expand_part part d rm visited missing))
      = fst (snd (expand_alternatives alts d rm (insert part visited) missing))"
    if "non_root rm part" "part \<notin> visited" "map_of d [part] = Some alts"
    using that unfolding non_root_def
    by (auto simp: expand_part.simps split: prod.splits option.splits)
  show "part \<in> fst (snd (expand_part part d rm visited missing))" if "non_root rm part"
    using that unfolding non_root_def by (rule part_is_visited)
  show "visited \<subseteq> fst (snd (expand_sub_parts sps expanded d rm visited missing))"
    by (rule visited_grows(3))
  show "visited \<subseteq> fst (snd (expand_alternatives alts d rm visited missing))"
    by (rule visited_grows(2))
  show "fst (snd (expand_part part d rm visited missing))
      \<subseteq> fst (snd (expand_sub_parts (part # sps) expanded d rm visited missing))"
  proof (cases "expand_part part d rm visited missing")
    case (fields r v m)
    show ?thesis
    proof (cases r)
      case None
      with fields show ?thesis by simp
    next
      case (Some e)
      with fields visited_grows(3) [of v sps "expanded @ e" d rm m] show ?thesis by simp
    qed
  qed
  show "fst (snd (expand_sub_parts (apply_replacements sub_parts) [] d rm visited missing))
      \<subseteq> fst (snd (expand_alternatives (sub_parts # alts) d rm visited missing))"
  proof (cases "expand_sub_parts (apply_replacements sub_parts) [] d rm visited missing")
    case (fields r v m)
    show ?thesis
    proof (cases r)
      case None
      with fields visited_grows(2) [of v alts d rm m] show ?thesis by simp
    next
      case (Some e)
      with fields show ?thesis by simp
    qed
  qed
next
  assume "\<not> distinct (filter (non_root rm) (apply_replacements sub_parts))"
  then have "\<not> distinct (filter (\<lambda>sp. rm sp = None) (apply_replacements sub_parts))"
    unfolding non_root_def .
  then show none: "fst (expand_sub_parts (apply_replacements sub_parts) [] d rm visited missing)
      = None"
    by (rule repeated_sub_part_fails)
  then show "fst (expand_alternatives [sub_parts] d rm visited missing) = None"
    by (auto split: prod.splits option.splits)
next
  assume "\<exists>q\<in>set sps. non_root rm q \<and> q \<in> visited"
  then obtain q where "q \<in> set sps" "rm q = None" "q \<in> visited"
    unfolding non_root_def by blast
  then show "fst (expand_sub_parts sps expanded d rm visited missing) = None"
    by (rule visited_sub_part_fails)
next
  let ?first = "expand_sub_parts (apply_replacements sub_parts) [] d rm visited missing"
  assume failed: "fst ?first = None"
    and shared: "\<forall>alt\<in>set alts. \<exists>q\<in>set (apply_replacements alt). non_root rm q
      \<and> q \<in> fst (snd ?first)"
  obtain r v m where run: "?first = (r, v, m)" by (cases ?first)
  from shared run
  have "\<forall>alt\<in>set alts. \<exists>q\<in>set (apply_replacements alt). rm q = None \<and> q \<in> v"
    by (simp add: non_root_def)
  then have "fst (expand_alternatives alts d rm v m) = None"
    by (rule visited_blocks_alternatives)
  with failed run show "fst (expand_alternatives (sub_parts # alts) d rm visited missing) = None"
    by simp
qed

text \<open>
  The part U+65E6 resolves on its own, and the alternative that holds it twice fails. In
  the shared table the second alternative of U+6619 resolves from the state in which the
  first one is tried, and fails after it.
\<close>

theorem visited_parts_stay_visited_witness:
  "non_root example_roots 0x65E6
   \<and> expand_part 0x65E6 example_table example_roots {} {}
     = (Some [0x65E5, 0x4E00], {0x65E6}, {})
   \<and> \<not> distinct (filter (non_root example_roots) (apply_replacements [0x65E6, 0x65E6]))
   \<and> fst (expand_alternatives [[0x65E6, 0x65E6]] example_table example_roots {0x660C} {}) = None
   \<and> fst (expand_part 0x660C example_table example_roots {} {}) = None
   \<and> expand_sub_parts (apply_replacements [0x65E6, 0x4E91]) [] shared_table example_roots
       {0x6619} {} = (None, {0x6619, 0x65E6, 0x4E91}, {0x4E91})
   \<and> expand_alternatives [[0x65E6, 0x4E00]] shared_table example_roots {0x6619} {}
     = (Some [0x65E5, 0x4E00, 0x4E00], {0x6619, 0x65E6}, {})
   \<and> fst (expand_alternatives [[0x65E6, 0x4E91], [0x65E6, 0x4E00]] shared_table example_roots
       {0x6619} {}) = None
   \<and> expand_part 0x6619 shared_table example_roots {} {}
     = (None, {0x6619, 0x65E6, 0x4E91}, {0x4E91, 0x6619})
   \<and> non_root example_roots 0x6619
   \<and> map_of shared_table [0x6619] = Some [[0x65E6, 0x4E91], [0x65E6, 0x4E00]]
   \<and> fst (snd (expand_alternatives [[0x65E6, 0x4E91], [0x65E6, 0x4E00]] shared_table
       example_roots {0x6619} {})) = {0x6619, 0x65E6, 0x4E91}"
proof -
  have ar: "apply_replacements [0x65E6, 0x65E6] = [0x65E6, 0x65E6]"
    "apply_replacements [0x65E5, 0x4E00] = [0x65E5, 0x4E00]"
    "apply_replacements [0x65E6, 0x4E91] = [0x65E6, 0x4E91]"
    "apply_replacements [0x65E6, 0x4E00] = [0x65E6, 0x4E00]"
    by (simp_all add: apply_replacements_def REPLACEMENTS_def str_replace.simps startswith_def)
  have nr: "non_root example_roots 0x65E6"
    by (simp add: non_root_def example_roots_def)
  have twice: "\<not> distinct (filter (non_root example_roots) (apply_replacements [0x65E6, 0x65E6]))"
    by (simp add: ar nr)
  have alone: "expand_part 0x65E6 example_table example_roots {} {}
      = (Some [0x65E5, 0x4E00], {0x65E6}, {})"
    by (simp add: example_roots_def example_table_def ar expand_part.simps)
  from visited_parts_stay_visited
    [where rm = example_roots and sub_parts = "[0x65E6, 0x65E6]" and d = example_table
      and visited = "{0x660C}" and missing = "{}" and part = "0x65E6"] nr twice
  have fails: "fst (expand_alternatives [[0x65E6, 0x65E6]] example_table example_roots {0x660C} {})
      = None"
    by blast
  have "map_of example_table [0x660C] = Some [[0x65E6, 0x65E6]]"
    "example_roots 0x660C = None"
    by (simp_all add: example_table_def example_roots_def)
  with fails have whole: "fst (expand_part 0x660C example_table example_roots {} {}) = None"
    by (auto simp: expand_part.simps split: prod.splits option.splits)
  have first: "expand_sub_parts (apply_replacements [0x65E6, 0x4E91]) [] shared_table
      example_roots {0x6619} {} = (None, {0x6619, 0x65E6, 0x4E91}, {0x4E91})"
    by (simp add: example_roots_def shared_table_def ar expand_part.simps insert_commute)
  have second: "expand_alternatives [[0x65E6, 0x4E00]] shared_table example_roots {0x6619} {}
      = (Some [0x65E5, 0x4E00, 0x4E00], {0x6619, 0x65E6}, {})"
    by (simp add: example_roots_def shared_table_def ar expand_part.simps insert_commute)
  have shared: "\<forall>alt\<in>set [[0x65E6, 0x4E00]]. \<exists>q\<in>set (apply_replacements alt).
      non_root example_roots q
      \<and> q \<in> fst (snd (expand_sub_parts (apply_replacements [0x65E6, 0x4E91]) [] shared_table
            example_roots {0x6619} {}))"
    unfolding first by (simp add: ar nr)
  from visited_parts_stay_visited
    [where rm = example_roots and sub_parts = "[0x65E6, 0x4E91]" and d = shared_table
      and visited = "{0x6619}" and missing = "{}" and alts = "[[0x65E6, 0x4E00]]"] first shared
  have both: "fst (expand_alternatives [[0x65E6, 0x4E91], [0x65E6, 0x4E00]] shared_table
      example_roots {0x6619} {}) = None"
    by simp
  have top: "expand_part 0x6619 shared_table example_roots {} {}
      = (None, {0x6619, 0x65E6, 0x4E91}, {0x4E91, 0x6619})"
    by (simp add: example_roots_def shared_table_def ar expand_part.simps insert_commute)
  have key: "non_root example_roots 0x6619"
    "map_of shared_table [0x6619] = Some [[0x65E6, 0x4E91], [0x65E6, 0x4E00]]"
    by (simp_all add: non_root_def example_roots_def shared_table_def)
  from visited_parts_stay_visited
    [where rm = example_roots and d = shared_table and part = "0x6619" and visited = "{}"
      and missing = "{}" and alts = "[[0x65E6, 0x4E91], [0x65E6, 0x4E00]]"] key top
  have handed: "fst (snd (expand_alternatives [[0x65E6, 0x4E91], [0x65E6, 0x4E00]] shared_table
      example_roots {0x6619} {})) = {0x6619, 0x65E6, 0x4E91}"
    by simp
  from nr twice alone fails whole first second both top key handed show ?thesis by simp
qed

text \<open>
  The claim read on the alternative as the table has it fails: U+7518 is not a root and
  occurs twice in the alternative of \<open>0x5A\<close>, but the substitution pass rewrites its
  first occurrence together with U+4E00, and the part resolves.
\<close>

theorem repeated_sub_part_counterexample:
  "non_root overlap_roots 0x7518
   \<and> \<not> distinct (filter (non_root overlap_roots) [0x7518, 0x4E00, 0x7518])
   \<and> map_of overlap_table [0x5A] = Some [[0x7518, 0x4E00, 0x7518]]
   \<and> expand_part 0x5A overlap_table overlap_roots {} {}
     = (Some [0x5176, 0x4E0A, 0x5341], {0x5A, 0x7518}, {})"
proof -
  have ar: "apply_replacements [0x7518, 0x4E00, 0x7518] = [0x5176, 0x4E0A, 0x7518]"
    "apply_replacements [0x5341] = [0x5341]"
    by (simp_all add: apply_replacements_def REPLACEMENTS_def str_replace.simps startswith_def)
  show ?thesis
    by (simp add: non_root_def overlap_table_def overlap_roots_def ar expand_part.simps
        insert_commute)
qed

section \<open>Idempotence of the substitution pass\<close>

lemma str_replace_pair_simps:
  "str_replace [a, b] [c, e] [] = []"
  "str_replace [a, b] [c, e] [x] = [x]"
  "str_replace [a, b] [c, e] (x # y # s) =
     (if x = a \<and> y = b then c # e # str_replace [a, b] [c, e] s
      else x # str_replace [a, b] [c, e] (y # s))"
  by (auto simp: str_replace.simps [of "[a, b]" "[c, e]" "[]"]
      str_replace.simps [of "[a, b]" "[c, e]" "[x]"]
      str_replace.simps [of "[a, b]" "[c, e]" "x # y # s"] startswith_def)

lemma str_replace_absent:
  "\<not> has_pair a b s \<Longrightarrow> str_replace [a, b] [c, e] s = s"
  by (induction a b s rule: has_pair.induct) (auto simp: str_replace_pair_simps)

lemma str_replace_head:
  "str_replace [a, b] [c, e] (y # s) = z # t \<Longrightarrow> z = y \<or> z = c"
  by (cases s) (auto simp: str_replace_pair_simps split: if_splits)

lemma has_pair_Cons:
  "has_pair p q (x # t) = ((t \<noteq> [] \<and> x = p \<and> hd t = q) \<or> has_pair p q t)"
  by (cases t) auto

lemma str_replace_removes:
  assumes "c \<noteq> a" "c \<noteq> b" "e \<noteq> a"
  shows "\<not> has_pair a b (str_replace [a, b] [c, e] s)"
proof (induction s rule: induct_list012)
  case 1
  show ?case by (simp add: str_replace_pair_simps)
next
  case (2 x)
  show ?case by (simp add: str_replace_pair_simps)
next
  case (3 x y s)
  show ?case
  proof (cases "x = a \<and> y = b")
    case True
    with 3(1) assms show ?thesis
      by (cases "str_replace [a, b] [c, e] s") (auto simp: str_replace_pair_simps)
  next
    case False
    with 3(2) assms show ?thesis
      by (cases "str_replace [a, b] [c, e] (y # s)")
        (auto simp: str_replace_pair_simps has_pair_Cons dest: str_replace_head)
  qed
qed

lemma has_pair_tail: "has_pair p q s \<Longrightarrow> has_pair p q (x # s)"
  by (cases s) auto

lemma str_replace_keeps_absent:
  assumes "c \<noteq> p" "c \<noteq> q" "e \<noteq> p" "e \<noteq> q"
  shows "\<not> has_pair p q s \<Longrightarrow> \<not> has_pair p q (str_replace [a, b] [c, e] s)"
proof (induction s rule: induct_list012)
  case 1
  show ?case by (simp add: str_replace_pair_simps)
next
  case (2 x)
  show ?case by (simp add: str_replace_pair_simps)
next
  case (3 x y s)
  from 3(3) have tl1: "\<not> has_pair p q (y # s)" by auto
  then have tl2: "\<not> has_pair p q s" using has_pair_tail by blast
  show ?case
  proof (cases "x = a \<and> y = b")
    case True
    with 3(1) [OF tl2] assms show ?thesis
      by (cases "str_replace [a, b] [c, e] s") (auto simp: str_replace_pair_simps)
  next
    case False
    with 3(2) [OF tl1] 3(3) assms show ?thesis
      by (cases "str_replace [a, b] [c, e] (y # s)")
        (auto simp: str_replace_pair_simps has_pair_Cons dest: str_replace_head)
  qed
qed

lemma apply_replacements_idem: "apply_replacements (apply_replacements parts) = apply_replacements parts"
proof -
  let ?r1 = "str_replace [0x7518, 0x4E00] [0x5176, 0x4E0A]"
  let ?r2 = "str_replace [0x76EE, 0x4E00] [0x5177, 0x4E0A]"
  let ?r3 = "str_replace [0x4E8E, 0x516B] [0x4F59, 0x4E0B]"
  let ?t = "?r3 (?r2 (?r1 parts))"
  have ar: "\<And>s. apply_replacements s = ?r3 (?r2 (?r1 s))"
    by (simp add: apply_replacements_def REPLACEMENTS_def)
  have "\<not> has_pair 0x7518 0x4E00 (?r1 parts)"
    by (rule str_replace_removes) simp_all
  then have "\<not> has_pair 0x7518 0x4E00 (?r2 (?r1 parts))"
    by (rule str_replace_keeps_absent [rotated -1]) simp_all
  then have 1: "\<not> has_pair 0x7518 0x4E00 ?t"
    by (rule str_replace_keeps_absent [rotated -1]) simp_all
  have "\<not> has_pair 0x76EE 0x4E00 (?r2 (?r1 parts))"
    by (rule str_replace_removes) simp_all
  then have 2: "\<not> has_pair 0x76EE 0x4E00 ?t"
    by (rule str_replace_keeps_absent [rotated -1]) simp_all
  have 3: "\<not> has_pair 0x4E8E 0x516B ?t"
    by (rule str_replace_removes) simp_all
  from 1 have "?r1 ?t = ?t" by (rule str_replace_absent)
  moreover from 2 have "?r2 ?t = ?t" by (rule str_replace_absent)
  moreover from 3 have "?r3 ?t = ?t" by (rule str_replace_absent)
  ultimately show ?thesis by (simp add: ar)
qed

text \<open>
  C8: the substitution pass is idempotent. Applied to its own output it changes nothing,
  since none of the three rules changes that output: no pattern occurs in it.
\<close>

theorem apply_replacements_idempotent:
  "apply_replacements (apply_replacements parts) = apply_replacements parts
   \<and> list_all (\<lambda>(k, v). str_replace k v (apply_replacements parts) = apply_replacements parts)
       REPLACEMENTS"
proof -
  let ?t = "apply_replacements parts"
  have t: "?t = str_replace [0x4E8E, 0x516B] [0x4F59, 0x4E0B]
      (str_replace [0x76EE, 0x4E00] [0x5177, 0x4E0A]
        (str_replace [0x7518, 0x4E00] [0x5176, 0x4E0A] parts))"
    by (simp add: apply_replacements_def REPLACEMENTS_def)
  have "\<not> has_pair 0x7518 0x4E00 ?t" "\<not> has_pair 0x76EE 0x4E00 ?t" "\<not> has_pair 0x4E8E 0x516B ?t"
    unfolding t
    by (intro str_replace_keeps_absent str_replace_removes; simp)+
  then show ?thesis
    by (simp add: apply_replacements_idem REPLACEMENTS_def str_replace_absent)
qed

section \<open>The rows of the table generator\<close>

lemma expand_parts_same_run:
  assumes "normalise_table d = normalise_table d'"
  shows "\<exists>r X. \<forall>m. expand_parts ps expanded d rm m = (r, m \<union> X)
    \<and> expand_parts ps expanded d' rm m = (r, m \<union> X)"
proof (induction ps arbitrary: expanded)
  case Nil
  show ?case by (intro exI [of _ "Some expanded"] exI [of _ "{}"]) simp
next
  case (Cons p ps)
  from expand_same_run(1) [OF assms, of p rm "{}"] obtain r v X
    where a: "\<And>m. expand_part p d rm {} m = (r, v, m \<union> X)"
      and b: "\<And>m. expand_part p d' rm {} m = (r, v, m \<union> X)"
    unfolding same_run_def by blast
  show ?case
  proof (cases r)
    case None
    with a b show ?thesis
      by (intro exI [of _ None] exI [of _ X]) simp
  next
    case (Some e)
    from Cons.IH [of "expanded @ e"] obtain r2 X2
      where c: "\<And>m. expand_parts ps (expanded @ e) d rm m = (r2, m \<union> X2)"
        and f: "\<And>m. expand_parts ps (expanded @ e) d' rm m = (r2, m \<union> X2)"
      by blast
    from Some a b c f show ?thesis
      by (intro exI [of _ r2] exI [of _ "X \<union> X2"]) (simp add: Un_assoc)
  qed
qed

lemma get_code_same:
  assumes "normalise_table d = normalise_table d'"
    and "apply_replacements parts = apply_replacements parts'"
  shows "fst (get_code_for_decomp parts d rm m sc char)
    = fst (get_code_for_decomp parts' d' rm m' sc' char')"
proof -
  from expand_parts_same_run [OF assms(1), of "apply_replacements parts" "[]" rm]
  obtain r X where a: "\<And>m. expand_parts (apply_replacements parts) [] d rm m = (r, m \<union> X)"
    and b: "\<And>m. expand_parts (apply_replacements parts) [] d' rm m = (r, m \<union> X)"
    by blast
  show ?thesis
    unfolding get_code_for_decomp_def assms(2) [symmetric] a b
    by (cases r) (simp_all add: Let_def)
qed

lemma get_code_shape_code:
  "fst (get_code_for_decomp parts d rm m sc char) = shape_code parts d rm"
  unfolding shape_code_def by (rule get_code_same) simp_all

lemma length_ge_two: "xs \<noteq> [] \<Longrightarrow> length xs \<noteq> 1 \<Longrightarrow> 2 \<le> length xs"
  by (cases xs) (auto simp: Suc_le_eq)

lemma get_code_nonempty:
  "get_code_for_decomp parts d rm m sc char = (Some c, m', sc') \<Longrightarrow> 2 \<le> length c"
  unfolding get_code_for_decomp_def
  by (auto simp: Let_def length_ge_two split: prod.splits option.splits if_splits)

lemma try_decomps_fout:
  "fout (snd (try_decomps decomps char d rm success st))
    = fout st @ map (output_row char) (List.map_filter (\<lambda>parts. shape_code parts d rm) decomps)"
proof (induction decomps arbitrary: success st)
  case Nil
  show ?case by (simp add: map_filter_simps)
next
  case (Cons parts rest)
  obtain code m' sc' where run:
    "get_code_for_decomp parts d rm (missing_roots st) (singlecode_chars st) char = (code, m', sc')"
    by (cases "get_code_for_decomp parts d rm (missing_roots st) (singlecode_chars st) char")
  with get_code_shape_code [of parts d rm "missing_roots st" "singlecode_chars st" char]
  have code: "shape_code parts d rm = code" by simp
  show ?case
  proof (cases code)
    case None
    with run code show ?thesis
      by (simp add: Cons.IH map_filter_simps)
  next
    case (Some c)
    with run get_code_nonempty have "c \<noteq> []" by fastforce
    with Some run code show ?thesis
      by (simp add: Cons.IH map_filter_simps output_row_def)
  qed
qed

lemma main_loop_fout:
  "fout (main_loop items d rm st)
    = fout st @ concat (map (\<lambda>(char, decomps).
        map (output_row char) (List.map_filter (\<lambda>parts. shape_code parts d rm) decomps)) items)"
proof (induction items arbitrary: st)
  case Nil
  show ?case by simp
next
  case (Cons item items)
  obtain char decomps where item: "item = (char, decomps)" by (cases item)
  obtain success st' where run: "try_decomps decomps char d rm False st = (success, st')"
    by (cases "try_decomps decomps char d rm False st")
  with try_decomps_fout [of decomps char d rm False st]
  have "fout st' = fout st
      @ map (output_row char) (List.map_filter (\<lambda>parts. shape_code parts d rm) decomps)"
    by simp
  with run show ?case
    unfolding item by (simp add: Cons.IH)
qed

text \<open>
  C4: the output file holds, for every item of the table in order, one row for every
  alternative of the character whose code is not \<open>None\<close>, in the order of the alternatives:
  all of them, not the first one only. The code of an alternative does not depend on the
  diagnostic collections that the generator threads through the calls.
\<close>

theorem generator_emits_every_code:
  "fout (generator_main rm d)
    = concat (map (\<lambda>(char, decomps).
        map (output_row char) (List.map_filter (\<lambda>parts. shape_code parts d rm) decomps)) d)
  \<and> shape_code parts d rm = fst (get_code_for_decomp parts d rm missing singlecode char)"
proof (intro conjI)
  let ?start = "\<lparr>fout = [], missing_roots = {}, singlecode_chars = [], missing_lines = []\<rparr>"
  have "fout (main_loop d d rm ?start)
      = fout ?start @ concat (map (\<lambda>(char, decomps).
          map (output_row char) (List.map_filter (\<lambda>parts. shape_code parts d rm) decomps)) d)"
    by (rule main_loop_fout)
  then show "fout (generator_main rm d)
      = concat (map (\<lambda>(char, decomps).
          map (output_row char) (List.map_filter (\<lambda>parts. shape_code parts d rm) decomps)) d)"
    by (simp add: generator_main_def)
  show "shape_code parts d rm = fst (get_code_for_decomp parts d rm missing singlecode char)"
    by (rule get_code_shape_code [symmetric])
qed

section \<open>The substitution pass comes first\<close>

lemma get_code_same_missing:
  assumes "normalise_table d = normalise_table d'"
    and "apply_replacements parts = apply_replacements parts'"
  shows "fst (snd (get_code_for_decomp parts d rm m sc char))
    = fst (snd (get_code_for_decomp parts' d' rm m sc' char'))"
proof -
  from expand_parts_same_run [OF assms(1), of "apply_replacements parts" "[]" rm]
  obtain r X where a: "\<And>m. expand_parts (apply_replacements parts) [] d rm m = (r, m \<union> X)"
    and b: "\<And>m. expand_parts (apply_replacements parts) [] d' rm m = (r, m \<union> X)"
    by blast
  show ?thesis
    unfolding get_code_for_decomp_def assms(2) [symmetric] a b
    by (cases r) (simp_all add: Let_def)
qed

lemma expand_part_result_any_missing:
  "fst (expand_part part d rm visited missing) = fst (expand_part part d rm visited missing')"
  using expand_same_run(1) [where d = d and d' = d and part = part and rm = rm
      and visited = visited, OF refl]
  unfolding same_run_def
  by (metis fst_conv)

lemma expand_parts_elementwise:
  "fst (expand_parts ps expanded d rm missing)
    = map_option (\<lambda>resolved. expanded @ concat resolved)
        (those (map (\<lambda>sp. fst (expand_part sp d rm {} {})) ps))"
proof (induction ps arbitrary: expanded missing)
  case Nil
  show ?case by simp
next
  case (Cons p ps)
  obtain r v m where run: "expand_part p d rm {} missing = (r, v, m)"
    by (cases "expand_part p d rm {} missing")
  with expand_part_result_any_missing [of p d rm "{}" missing "{}"]
  have pure: "fst (expand_part p d rm {} {}) = r" by simp
  show ?case
  proof (cases r)
    case None
    with run pure show ?thesis by simp
  next
    case (Some e)
    with run pure Cons.IH [of "expanded @ e" m] show ?thesis
      by (simp add: option.map_comp comp_def)
  qed
qed

lemma get_code_elementwise:
  "fst (get_code_for_decomp parts d rm missing singlecode char)
    = (case those (map (\<lambda>sp. fst (expand_part sp d rm {} {})) (apply_replacements parts)) of
         None \<Rightarrow> None
       | Some resolved \<Rightarrow> first_three_last (List.map_filter rm (concat resolved)))"
proof -
  obtain r m where run: "expand_parts (apply_replacements parts) [] d rm missing = (r, m)"
    by (cases "expand_parts (apply_replacements parts) [] d rm missing")
  with expand_parts_elementwise [of "apply_replacements parts" "[]" d rm missing]
  have r: "r = map_option concat
      (those (map (\<lambda>sp. fst (expand_part sp d rm {} {})) (apply_replacements parts)))"
    by simp
  show ?thesis
  proof (cases r)
    case None
    with run r show ?thesis
      by (simp add: get_code_for_decomp_def split: option.splits)
  next
    case (Some e)
    with run r show ?thesis
      by (auto simp: get_code_for_decomp_def first_three_last_def Let_def split: option.splits)
  qed
qed

lemma expand_sub_parts_keeps_prefix:
  "expand_sub_parts sps expanded d rm visited missing = (Some res, v', m')
     \<Longrightarrow> take (length expanded) res = expanded"
proof (induction sps arbitrary: expanded visited missing)
  case Nil
  then show ?case by simp
next
  case (Cons sp sps)
  obtain r v m where run: "expand_part sp d rm visited missing = (r, v, m)"
    by (cases "expand_part sp d rm visited missing")
  show ?case
  proof (cases r)
    case None
    with run Cons.prems show ?thesis by simp
  next
    case (Some e)
    with run Cons.prems have "expand_sub_parts sps (expanded @ e) d rm v m = (Some res, v', m')"
      by simp
    from Cons.IH [OF this] have "take (length expanded + length e) res = expanded @ e"
      by simp
    then have "take (length expanded) (take (length expanded + length e) res) = expanded"
      by simp
    then show ?thesis by (simp add: min_def)
  qed
qed

text \<open>
  C7 (as amended): every alternative is substituted before any of its elements is
  expanded, at every depth of the recursion and in the shape-code deriver. Hence the
  resolver sees an alternative through its substituted form only: two tables whose
  alternatives have the same substituted forms, two lists of alternatives and two
  top-level alternatives with the same substituted forms give the same results, visited
  sets, missing roots and codes; and the code of the deriver is the rule of the letters
  applied to the resolutions, each from an empty visited set, of the elements of the
  substituted alternative. The pass is not applied again to what expansion produces: the
  loop over the sub-parts hands back the sequence expanded so far as it is, followed by
  the expansions of the sub-parts that remain.
\<close>

theorem substitution_precedes_expansion:
  assumes "normalise_table d = normalise_table d'"
    and "map apply_replacements alts = map apply_replacements alts'"
    and "apply_replacements parts = apply_replacements parts'"
  shows "expand_part part d rm visited missing = expand_part part d' rm visited missing
    \<and> expand_alternatives alts d rm visited missing
      = expand_alternatives alts' d' rm visited missing
    \<and> fst (get_code_for_decomp parts d rm missing singlecode char)
      = fst (get_code_for_decomp parts' d' rm missing singlecode char)
    \<and> fst (snd (get_code_for_decomp parts d rm missing singlecode char))
      = fst (snd (get_code_for_decomp parts' d' rm missing singlecode char))
    \<and> fst (get_code_for_decomp parts d rm missing singlecode char)
      = (case those (map (\<lambda>sp. fst (expand_part sp d rm {} {})) (apply_replacements parts)) of
           None \<Rightarrow> None
         | Some resolved \<Rightarrow> first_three_last (List.map_filter rm (concat resolved)))
    \<and> (case expand_sub_parts sps expanded d rm visited missing of
          (None, visited', missing') \<Rightarrow> True
        | (Some res, visited', missing') \<Rightarrow> take (length expanded) res = expanded)"
proof (intro conjI)
  from expand_same_run(1) [OF assms(1)]
  show "expand_part part d rm visited missing = expand_part part d' rm visited missing"
    unfolding same_run_def by metis
  from expand_same_run(2) [OF assms(1,2)]
  show "expand_alternatives alts d rm visited missing
      = expand_alternatives alts' d' rm visited missing"
    unfolding same_run_def by metis
  show "fst (get_code_for_decomp parts d rm missing singlecode char)
      = fst (get_code_for_decomp parts' d' rm missing singlecode char)"
    using assms(1,3) by (rule get_code_same)
  show "fst (snd (get_code_for_decomp parts d rm missing singlecode char))
      = fst (snd (get_code_for_decomp parts' d' rm missing singlecode char))"
    using assms(1,3) by (rule get_code_same_missing)
  show "fst (get_code_for_decomp parts d rm missing singlecode char)
      = (case those (map (\<lambda>sp. fst (expand_part sp d rm {} {})) (apply_replacements parts)) of
           None \<Rightarrow> None
         | Some resolved \<Rightarrow> first_three_last (List.map_filter rm (concat resolved)))"
    by (rule get_code_elementwise)
  show "case expand_sub_parts sps expanded d rm visited missing of
          (None, visited', missing') \<Rightarrow> True
        | (Some res, visited', missing') \<Rightarrow> take (length expanded) res = expanded"
    using expand_sub_parts_keeps_prefix [of sps expanded d rm visited missing]
    by (auto split: prod.splits option.splits)
qed

theorem substitution_precedes_expansion_witness:
  "normalise_table raw_table = normalise_table substituted_table
   \<and> map apply_replacements [[0x7518, 0x4E00]] = map apply_replacements [[0x5176, 0x4E0A]]
   \<and> apply_replacements [0x7518, 0x4E00, 0x57FA] = apply_replacements [0x5176, 0x4E0A, 0x57FA]
   \<and> expand_part 0x57FA raw_table substituted_roots {} {}
     = (Some [0x5176, 0x4E0A, 0x5341, 0x4E00], {0x57FA, 0x571F}, {})
   \<and> expand_part 0x57FA substituted_table substituted_roots {} {}
     = (Some [0x5176, 0x4E0A, 0x5341, 0x4E00], {0x57FA, 0x571F}, {})
   \<and> expand_alternatives [[0x7518, 0x4E00]] raw_table substituted_roots {} {}
     = (Some [0x5176, 0x4E0A], {}, {})
   \<and> expand_alternatives [[0x5176, 0x4E0A]] substituted_table substituted_roots {} {}
     = (Some [0x5176, 0x4E0A], {}, {})
   \<and> get_code_for_decomp [0x7518, 0x4E00, 0x57FA] raw_table substituted_roots {} [] []
     = (Some [65, 66, 65, 71], {}, [])
   \<and> get_code_for_decomp [0x5176, 0x4E0A, 0x57FA] substituted_table substituted_roots {} [] []
     = (Some [65, 66, 65, 71], {}, [])
   \<and> those (map (\<lambda>sp. fst (expand_part sp raw_table substituted_roots {} {}))
        (apply_replacements [0x7518, 0x4E00, 0x57FA]))
     = Some [[0x5176], [0x4E0A], [0x5176, 0x4E0A, 0x5341, 0x4E00]]
   \<and> expand_sub_parts [0x57FA] [0x5176, 0x4E0A] raw_table substituted_roots {} {}
     = (Some [0x5176, 0x4E0A, 0x5176, 0x4E0A, 0x5341, 0x4E00], {0x57FA, 0x571F}, {})"
proof -
  have ar: "apply_replacements [0x7518, 0x4E00, 0x571F] = [0x5176, 0x4E0A, 0x571F]"
    "apply_replacements [0x5176, 0x4E0A, 0x571F] = [0x5176, 0x4E0A, 0x571F]"
    "apply_replacements [0x5341, 0x4E00] = [0x5341, 0x4E00]"
    "apply_replacements [0x7518, 0x4E00] = [0x5176, 0x4E0A]"
    "apply_replacements [0x5176, 0x4E0A] = [0x5176, 0x4E0A]"
    "apply_replacements [0x7518, 0x4E00, 0x57FA] = [0x5176, 0x4E0A, 0x57FA]"
    "apply_replacements [0x5176, 0x4E0A, 0x57FA] = [0x5176, 0x4E0A, 0x57FA]"
    by (simp_all add: apply_replacements_def REPLACEMENTS_def str_replace.simps startswith_def)
  have tables: "normalise_table raw_table = normalise_table substituted_table"
    by (simp add: normalise_table_def raw_table_def substituted_table_def ar)
  have alts: "map apply_replacements [[0x7518, 0x4E00]] = map apply_replacements [[0x5176, 0x4E0A]]"
    by (simp add: ar)
  have parts: "apply_replacements [0x7518, 0x4E00, 0x57FA]
      = apply_replacements [0x5176, 0x4E0A, 0x57FA]"
    by (simp add: ar)
  have run: "expand_part 0x57FA substituted_table substituted_roots {} {}
      = (Some [0x5176, 0x4E0A, 0x5341, 0x4E00], {0x57FA, 0x571F}, {})"
    by (simp add: substituted_table_def substituted_roots_def ar expand_part.simps insert_commute)
  have alt: "expand_alternatives [[0x5176, 0x4E0A]] substituted_table substituted_roots {} {}
      = (Some [0x5176, 0x4E0A], {}, {})"
    by (simp add: substituted_table_def substituted_roots_def ar expand_part.simps)
  have code: "get_code_for_decomp [0x5176, 0x4E0A, 0x57FA] substituted_table substituted_roots
      {} [] [] = (Some [65, 66, 65, 71], {}, [])"
    by (simp add: get_code_for_decomp_def substituted_table_def substituted_roots_def ar
        expand_part.simps map_filter_simps)
  have raw_code: "snd (get_code_for_decomp [0x7518, 0x4E00, 0x57FA] raw_table substituted_roots
      {} [] []) = ({}, [])"
    by (simp add: get_code_for_decomp_def raw_table_def substituted_roots_def ar
        expand_part.simps map_filter_simps)
  have each: "those (map (\<lambda>sp. fst (expand_part sp raw_table substituted_roots {} {}))
        (apply_replacements [0x7518, 0x4E00, 0x57FA]))
      = Some [[0x5176], [0x4E0A], [0x5176, 0x4E0A, 0x5341, 0x4E00]]"
    by (simp add: raw_table_def substituted_roots_def ar expand_part.simps)
  have cont: "expand_sub_parts [0x57FA] [0x5176, 0x4E0A] raw_table substituted_roots {} {}
      = (Some [0x5176, 0x4E0A, 0x5176, 0x4E0A, 0x5341, 0x4E00], {0x57FA, 0x571F}, {})"
    by (simp add: raw_table_def substituted_roots_def ar expand_part.simps insert_commute)
  from substitution_precedes_expansion [OF tables alts parts,
      where part = "0x57FA" and rm = substituted_roots and visited = "{}"
        and missing = "{}" and singlecode = "[]" and char = "[]"] run alt code raw_code
  have "expand_part 0x57FA raw_table substituted_roots {} {}
      = (Some [0x5176, 0x4E0A, 0x5341, 0x4E00], {0x57FA, 0x571F}, {})"
    "expand_alternatives [[0x7518, 0x4E00]] raw_table substituted_roots {} {}
      = (Some [0x5176, 0x4E0A], {}, {})"
    "get_code_for_decomp [0x7518, 0x4E00, 0x57FA] raw_table substituted_roots {} [] []
      = (Some [65, 66, 65, 71], {}, [])"
    by (simp_all add: prod_eq_iff)
  with tables alts parts run alt code each cont show ?thesis by simp
qed

text \<open>
  The claim as stated fails for a partially expanded sequence: when U+7519 has been
  expanded to U+7518, the sequence of U+67D0 reads U+7518 U+4E00, which the substitution
  pass would rewrite to U+5176 U+4E0A; the resolver goes on with U+4E00 and returns
  U+7518 U+4E00, and the code is EG.
\<close>

theorem partially_expanded_counterexample:
  "expand_part 0x7519 unsubstituted_table unsubstituted_roots {0x67D0} {}
     = (Some [0x7518], {0x67D0, 0x7519}, {})
   \<and> apply_replacements ([0x7518] @ [0x4E00]) = [0x5176, 0x4E0A]
   \<and> expand_sub_parts [0x4E00] [0x7518] unsubstituted_table unsubstituted_roots
       {0x67D0, 0x7519} {} = (Some [0x7518, 0x4E00], {0x67D0, 0x7519}, {})
   \<and> expand_part 0x67D0 unsubstituted_table unsubstituted_roots {} {}
     = (Some [0x7518, 0x4E00], {0x67D0, 0x7519}, {})
   \<and> get_code_for_decomp [0x67D0] unsubstituted_table unsubstituted_roots {} [] [0x67D0]
     = (Some [69, 71], {}, [])"
proof -
  have ar: "apply_replacements [0x7519, 0x4E00] = [0x7519, 0x4E00]"
    "apply_replacements [0x7518] = [0x7518]"
    "apply_replacements [0x67D0] = [0x67D0]"
    "apply_replacements [0x7518, 0x4E00] = [0x5176, 0x4E0A]"
    by (simp_all add: apply_replacements_def REPLACEMENTS_def str_replace.simps startswith_def)
  show ?thesis
    by (simp add: get_code_for_decomp_def unsubstituted_table_def unsubstituted_roots_def ar
        expand_part.simps map_filter_simps insert_commute)
qed

section \<open>The shape code\<close>

lemma expand_parts_in_rootmap:
  "expand_parts ps expanded d rm missing = (Some res, missing')
     \<Longrightarrow> set expanded \<subseteq> dom rm \<Longrightarrow> set res \<subseteq> dom rm"
proof (induction ps arbitrary: expanded missing)
  case Nil
  then show ?case by simp
next
  case (Cons p ps)
  obtain r v m where run: "expand_part p d rm {} missing = (r, v, m)"
    by (cases "expand_part p d rm {} missing")
  show ?case
  proof (cases r)
    case None
    with run Cons.prems show ?thesis by simp
  next
    case (Some e)
    with run resolved_in_rootmap(1) have "set e \<subseteq> dom rm" by blast
    with Cons.prems(2) have "set (expanded @ e) \<subseteq> dom rm" by simp
    moreover from Cons.prems(1) run Some
    have "expand_parts ps (expanded @ e) d rm m = (Some res, missing')" by simp
    ultimately show ?thesis by (intro Cons.IH) auto
  qed
qed

lemma map_filter_all_roots:
  "set xs \<subseteq> dom rm \<Longrightarrow> List.map_filter rm xs = map (\<lambda>p. the (rm p)) xs"
  by (induction xs) (auto simp: map_filter_simps)

text \<open>
  C1: when every part of an alternative resolves, the resolved symbols are all roots,
  and with \<open>letters\<close> their letters in order the deriver returns the whole of
  \<open>letters\<close> when there are two or three, the first three and the last when there are
  four or more, and \<open>None\<close> when there is exactly one, in which case the pair of the
  character and the joined alternative is appended to the single-letter list.
\<close>

theorem get_code_for_decomp_letters:
  assumes "expand_parts (apply_replacements parts) [] d rm missing = (Some expanded, missing')"
    and "letters = map (\<lambda>p. the (rm p)) expanded"
  shows "set expanded \<subseteq> dom rm
    \<and> (length letters = 2 \<or> length letters = 3 \<longrightarrow>
          get_code_for_decomp parts d rm missing singlecode char
            = (Some letters, missing', singlecode))
    \<and> (4 \<le> length letters \<longrightarrow>
          get_code_for_decomp parts d rm missing singlecode char
            = (Some [letters ! 0, letters ! 1, letters ! 2, letters ! (length letters - 1)],
               missing', singlecode))
    \<and> (length letters = 1 \<longrightarrow>
          get_code_for_decomp parts d rm missing singlecode char
            = (None, missing', singlecode @ [(char, parts)]))"
proof -
  from assms(1) have roots: "set expanded \<subseteq> dom rm"
    by (rule expand_parts_in_rootmap) simp
  then have codes: "List.map_filter rm expanded = letters"
    unfolding assms(2) by (rule map_filter_all_roots)
  have run: "get_code_for_decomp parts d rm missing singlecode char =
      (if letters = [] then (None, missing', singlecode)
       else if length letters = 1 then (None, missing', singlecode @ [(char, parts)])
       else if 4 \<le> length letters
         then (Some [letters ! 0, letters ! 1, letters ! 2, last letters], missing', singlecode)
       else (Some letters, missing', singlecode))"
    by (simp add: get_code_for_decomp_def assms(1) codes Let_def)
  have "letters \<noteq> [] \<Longrightarrow> last letters = letters ! (length letters - 1)"
    by (rule last_conv_nth)
  with roots show ?thesis
    unfolding run by auto
qed

theorem get_code_for_decomp_letters_witness:
  "expand_parts (apply_replacements [0x65E6, 0x53E3, 0x65E6]) [] example_table example_roots {}
     = (Some [0x65E5, 0x4E00, 0x53E3, 0x65E5, 0x4E00], {})
   \<and> get_code_for_decomp [0x65E6, 0x53E3, 0x65E6] example_table example_roots {} [] [0x6676]
     = (Some [74, 71, 75, 71], {}, [])
   \<and> expand_parts (apply_replacements [0x65E6, 0x53E3]) [] example_table example_roots {}
     = (Some [0x65E5, 0x4E00, 0x53E3], {})
   \<and> get_code_for_decomp [0x65E6, 0x53E3] example_table example_roots {} [] [0x6676]
     = (Some [74, 71, 75], {}, [])
   \<and> expand_parts (apply_replacements [0x65E5]) [] example_table example_roots {}
     = (Some [0x65E5], {})
   \<and> get_code_for_decomp [0x65E5] example_table example_roots {} [] [0x6676]
     = (None, {}, [([0x6676], [0x65E5])])"
proof -
  have five: "expand_parts (apply_replacements [0x65E6, 0x53E3, 0x65E6]) [] example_table
      example_roots {} = (Some [0x65E5, 0x4E00, 0x53E3, 0x65E5, 0x4E00], {})"
    by (simp add: example_roots_def example_table_def apply_replacements_def
        REPLACEMENTS_def str_replace.simps startswith_def expand_part.simps)
  have three: "expand_parts (apply_replacements [0x65E6, 0x53E3]) [] example_table
      example_roots {} = (Some [0x65E5, 0x4E00, 0x53E3], {})"
    by (simp add: example_roots_def example_table_def apply_replacements_def
        REPLACEMENTS_def str_replace.simps startswith_def expand_part.simps)
  have one: "expand_parts (apply_replacements [0x65E5]) [] example_table example_roots {}
      = (Some [0x65E5], {})"
    by (simp add: example_roots_def example_table_def apply_replacements_def
        REPLACEMENTS_def str_replace.simps startswith_def expand_part.simps)
  show ?thesis
    using five three one
      get_code_for_decomp_letters [OF five refl, where singlecode = "[]" and char = "[0x6676]"]
      get_code_for_decomp_letters [OF three refl, where singlecode = "[]" and char = "[0x6676]"]
      get_code_for_decomp_letters [OF one refl, where singlecode = "[]" and char = "[0x6676]"]
    by (simp add: example_roots_def)
qed

section \<open>The merge generator: the fatal shape code\<close>

lemma shape_loop_abort:
  "\<exists>shape\<in>set shapes. length shape < 2
     \<Longrightarrow> \<exists>shape\<in>set shapes. length shape < 2
          \<and> shape_loop isalpha ch pinyins shapes char_lines cannot = Inl (ch, shape)"
proof (induction shapes arbitrary: char_lines cannot)
  case Nil
  then show ?case by simp
next
  case (Cons shape shapes)
  show ?case
  proof (cases "length shape < 2")
    case True
    then show ?thesis by simp
  next
    case False
    with Cons.prems have "\<exists>shape\<in>set shapes. length shape < 2" by auto
    from Cons.IH [OF this] False show ?thesis
      by (auto split: prod.splits)
  qed
qed

lemma shape_loop_complete:
  "\<forall>shape\<in>set shapes. 2 \<le> length shape
     \<Longrightarrow> \<exists>res. shape_loop isalpha ch pinyins shapes char_lines cannot = Inr res"
proof (induction shapes arbitrary: char_lines cannot)
  case Nil
  show ?case by simp
next
  case (Cons shape shapes)
  then show ?case by (auto split: prod.splits)
qed

lemma char_loop_abort:
  assumes "(ch, shapes) \<in> set shape_map" and "readings pm ch \<noteq> []"
    and "shape \<in> set shapes" and "length shape < 2"
  shows "\<exists>ch' shapes' shape'. (ch', shapes') \<in> set shape_map \<and> readings pm ch' \<noteq> []
    \<and> shape' \<in> set shapes' \<and> length shape' < 2
    \<and> char_loop isalpha pm shape_map st = Inl (ch', shape')"
  using assms(1)
proof (induction shape_map arbitrary: st)
  case Nil
  then show ?case by simp
next
  case (Cons item items)
  obtain c ss where item: "item = (c, ss)" by (cases item)
  show ?case
  proof (cases "readings pm c = []")
    case True
    with Cons.prems assms(2) item have "(ch, shapes) \<in> set items" by auto
    from Cons.IH [OF this, of "st\<lparr>missing_pinyin := insert c (missing_pinyin st)\<rparr>"] True
    show ?thesis
      unfolding item by (simp add: Let_def) blast
  next
    case False
    show ?thesis
    proof (cases "\<exists>s\<in>set ss. length s < 2")
      case True
      from shape_loop_abort [OF this, of isalpha c "readings pm c" "[]" "cannot_convert st"]
      obtain s where "s \<in> set ss" "length s < 2"
        "shape_loop isalpha c (readings pm c) ss [] (cannot_convert st) = Inl (c, s)"
        by blast
      with False show ?thesis
        unfolding item by (intro exI [of _ c] exI [of _ ss] exI [of _ s]) (simp add: Let_def)
    next
      case none: False
      then have "\<forall>s\<in>set ss. 2 \<le> length s" by auto
      from shape_loop_complete [OF this, of isalpha c "readings pm c" "[]" "cannot_convert st"]
      obtain cl cc where run:
        "shape_loop isalpha c (readings pm c) ss [] (cannot_convert st) = Inr (cl, cc)"
        by (metis surj_pair)
      from none Cons.prems assms(3,4) item have "(ch, shapes) \<in> set items" by auto
      from Cons.IH [OF this,
          of "st\<lparr>out_lines := out_lines st @ cl, cannot_convert := cc\<rparr>"] False run
      show ?thesis
        unfolding item by (simp add: Let_def) blast
    qed
  qed
qed

text \<open>
  C3: when a character of the shape table that has readings owns a shape code of length
  below two, the run ends with \<open>SystemExit\<close>: the output file is not written, no row of
  any character reaches it, and the log names a character and a code of that kind (the
  first one met). The run does not skip the row and go on.
\<close>

theorem short_shape_code_aborts:
  assumes "(ch, shapes) \<in> set shape_map" and "readings pm ch \<noteq> []"
    and "shape \<in> set shapes" and "length shape < 2"
  shows "\<exists>ch' shapes' shape'. (ch', shapes') \<in> set shape_map \<and> readings pm ch' \<noteq> []
    \<and> shape' \<in> set shapes' \<and> length shape' < 2
    \<and> transferer_main isalpha shape_map pm
        = \<lparr>exit_status = SystemExit ch' shape', OUT_FILE = None,
            ERR_LOG = ShapeLengthError ch' shape'\<rparr>"
proof -
  from char_loop_abort [OF assms,
      of isalpha "\<lparr>out_lines = [], missing_pinyin = {}, cannot_convert = []\<rparr>"]
  obtain ch' shapes' shape' where "(ch', shapes') \<in> set shape_map" "readings pm ch' \<noteq> []"
    "shape' \<in> set shapes'" "length shape' < 2"
    "char_loop isalpha pm shape_map \<lparr>out_lines = [], missing_pinyin = {}, cannot_convert = []\<rparr>
      = Inl (ch', shape')"
    by blast
  then show ?thesis
    by (intro exI [of _ ch'] exI [of _ shapes'] exI [of _ shape'])
      (simp add: transferer_main_def)
qed

theorem short_shape_code_aborts_witness:
  "([0x660C], [ustr ''jj'', ustr ''j'']) \<in> set example_shapes
   \<and> readings example_pinyin [0x660C] \<noteq> []
   \<and> ustr ''j'' \<in> set [ustr ''jj'', ustr ''j''] \<and> length (ustr ''j'') < 2
   \<and> transferer_main ascii_alpha example_shapes example_pinyin
     = \<lparr>exit_status = SystemExit [0x660C] (ustr ''j''), OUT_FILE = None,
         ERR_LOG = ShapeLengthError [0x660C] (ustr ''j'')\<rparr>"
proof -
  have item: "([0x660C], [ustr ''jj'', ustr ''j'']) \<in> set example_shapes"
    by (simp add: example_shapes_def)
  have read: "readings example_pinyin [0x660C] \<noteq> []"
    by (simp add: readings_def example_pinyin_def)
  have shape: "ustr ''j'' \<in> set [ustr ''jj'', ustr ''j'']" "length (ustr ''j'') < 2"
    by (simp_all add: ustr_def)
  from short_shape_code_aborts [OF item read shape, of ascii_alpha]
  obtain ch' shapes' shape' where found: "(ch', shapes') \<in> set example_shapes"
      "shape' \<in> set shapes'" "length shape' < 2"
    and run: "transferer_main ascii_alpha example_shapes example_pinyin
      = \<lparr>exit_status = SystemExit ch' shape', OUT_FILE = None,
          ERR_LOG = ShapeLengthError ch' shape'\<rparr>"
    by blast
  from found have "ch' = [0x660C] \<and> shape' = ustr ''j''"
    by (auto simp: example_shapes_def ustr_def)
  with run item read shape show ?thesis by simp
qed

section \<open>The merge generator: characters without readings\<close>

lemma char_loop_skips:
  "out_lines st = out_lines st' \<Longrightarrow> cannot_convert st = cannot_convert st'
     \<Longrightarrow> map_sum id (\<lambda>st. (out_lines st, cannot_convert st)) (char_loop isalpha pm shape_map st)
       = map_sum id (\<lambda>st. (out_lines st, cannot_convert st))
           (char_loop isalpha pm (filter (has_readings pm) shape_map) st')"
proof (induction shape_map arbitrary: st st')
  case Nil
  then show ?case by simp
next
  case (Cons item items)
  obtain c ss where item: "item = (c, ss)" by (cases item)
  show ?case
  proof (cases "readings pm c = []")
    case True
    with Cons.IH [of "st\<lparr>missing_pinyin := insert c (missing_pinyin st)\<rparr>" st'] Cons.prems
    show ?thesis
      unfolding item by (simp add: Let_def has_readings_def)
  next
    case False
    show ?thesis
    proof (cases "shape_loop isalpha c (readings pm c) ss [] (cannot_convert st)")
      case (Inl fatal)
      with False Cons.prems show ?thesis
        unfolding item by (simp add: Let_def has_readings_def)
    next
      case (Inr res)
      obtain cl cc where res: "res = (cl, cc)" by (cases res)
      from Cons.IH [of "st\<lparr>out_lines := out_lines st @ cl, cannot_convert := cc\<rparr>"
          "st'\<lparr>out_lines := out_lines st' @ cl, cannot_convert := cc\<rparr>"]
        Cons.prems False Inr res
      show ?thesis
        unfolding item by (simp add: Let_def has_readings_def)
    qed
  qed
qed

lemma char_loop_missing:
  "char_loop isalpha pm shape_map st = Inr st'
     \<Longrightarrow> missing_pinyin st' = missing_pinyin st \<union> {ch \<in> fst ` set shape_map. readings pm ch = []}"
proof (induction shape_map arbitrary: st)
  case Nil
  then show ?case by simp
next
  case (Cons item items)
  obtain c ss where item: "item = (c, ss)" by (cases item)
  show ?case
  proof (cases "readings pm c = []")
    case True
    with Cons.prems item
    have "char_loop isalpha pm items (st\<lparr>missing_pinyin := insert c (missing_pinyin st)\<rparr>) = Inr st'"
      by (simp add: Let_def)
    from Cons.IH [OF this] True show ?thesis
      unfolding item by auto
  next
    case False
    from Cons.prems False item obtain cl cc
      where "char_loop isalpha pm items
          (st\<lparr>out_lines := out_lines st @ cl, cannot_convert := cc\<rparr>) = Inr st'"
      by (auto simp: Let_def split: sum.splits)
    from Cons.IH [OF this] False show ?thesis
      unfolding item by auto
  qed
qed

lemma char_loop_complete:
  "\<forall>(ch, shapes)\<in>set shape_map. readings pm ch \<noteq> [] \<longrightarrow> (\<forall>shape\<in>set shapes. 2 \<le> length shape)
     \<Longrightarrow> \<exists>st'. char_loop isalpha pm shape_map st = Inr st'"
proof (induction shape_map arbitrary: st)
  case Nil
  show ?case by simp
next
  case (Cons item items)
  obtain c ss where item: "item = (c, ss)" by (cases item)
  from Cons.prems have rest: "\<forall>(ch, shapes)\<in>set items.
      readings pm ch \<noteq> [] \<longrightarrow> (\<forall>shape\<in>set shapes. 2 \<le> length shape)"
    by simp
  show ?case
  proof (cases "readings pm c = []")
    case True
    with Cons.IH [OF rest] show ?thesis
      unfolding item by (simp add: Let_def)
  next
    case False
    with Cons.prems item have "\<forall>s\<in>set ss. 2 \<le> length s" by auto
    from shape_loop_complete [OF this, of isalpha c "readings pm c" "[]" "cannot_convert st"]
    obtain cl cc where
      "shape_loop isalpha c (readings pm c) ss [] (cannot_convert st) = Inr (cl, cc)"
      by (metis surj_pair)
    with False Cons.IH [OF rest] show ?thesis
      unfolding item by (simp add: Let_def)
  qed
qed

text \<open>
  C10: the characters without readings are skipped before any of their shape codes is
  looked at. The run exits and writes its output exactly as on the table without them,
  so their codes can never abort it; when every character that has readings has codes of
  length two or more only, the run completes, whatever the codes of the others are, and
  reports exactly the characters without readings as missing.
\<close>

theorem missing_pinyin_skips_validation:
  "exit_status (transferer_main isalpha shape_map pm)
     = exit_status (transferer_main isalpha (filter (has_readings pm) shape_map) pm)
   \<and> OUT_FILE (transferer_main isalpha shape_map pm)
     = OUT_FILE (transferer_main isalpha (filter (has_readings pm) shape_map) pm)
   \<and> ((\<forall>(ch, shapes)\<in>set shape_map.
          readings pm ch \<noteq> [] \<longrightarrow> (\<forall>shape\<in>set shapes. 2 \<le> length shape))
        \<longrightarrow> (\<exists>cannot n. transferer_main isalpha shape_map pm
              = \<lparr>exit_status = Completed,
                  OUT_FILE = OUT_FILE (transferer_main isalpha (filter (has_readings pm) shape_map) pm),
                  ERR_LOG = Report {ch \<in> fst ` set shape_map. readings pm ch = []} cannot n\<rparr>))"
proof -
  let ?init = "\<lparr>out_lines = [], missing_pinyin = {}, cannot_convert = []\<rparr>"
  have skip: "map_sum id (\<lambda>st. (out_lines st, cannot_convert st)) (char_loop isalpha pm shape_map ?init)
      = map_sum id (\<lambda>st. (out_lines st, cannot_convert st))
          (char_loop isalpha pm (filter (has_readings pm) shape_map) ?init)"
    by (rule char_loop_skips) simp_all
  have same: "exit_status (transferer_main isalpha shape_map pm)
      = exit_status (transferer_main isalpha (filter (has_readings pm) shape_map) pm)
    \<and> OUT_FILE (transferer_main isalpha shape_map pm)
      = OUT_FILE (transferer_main isalpha (filter (has_readings pm) shape_map) pm)"
    using skip unfolding transferer_main_def
    by (cases "char_loop isalpha pm shape_map ?init";
        cases "char_loop isalpha pm (filter (has_readings pm) shape_map) ?init") auto
  have "\<exists>cannot n. transferer_main isalpha shape_map pm
      = \<lparr>exit_status = Completed,
          OUT_FILE = OUT_FILE (transferer_main isalpha (filter (has_readings pm) shape_map) pm),
          ERR_LOG = Report {ch \<in> fst ` set shape_map. readings pm ch = []} cannot n\<rparr>"
    if ok: "\<forall>(ch, shapes)\<in>set shape_map.
          readings pm ch \<noteq> [] \<longrightarrow> (\<forall>shape\<in>set shapes. 2 \<le> length shape)"
  proof -
    from char_loop_complete [OF ok] obtain st'
      where run: "char_loop isalpha pm shape_map ?init = Inr st'"
      by blast
    from char_loop_missing [OF run]
    have "missing_pinyin st' = {ch \<in> fst ` set shape_map. readings pm ch = []}" by simp
    with run same show ?thesis
      by (simp add: transferer_main_def)
  qed
  with same show ?thesis by blast
qed

theorem missing_pinyin_skips_validation_witness:
  "([0x660C], [ustr ''jj'', ustr ''j'']) \<in> set example_shapes
   \<and> readings partial_pinyin [0x660C] = [] \<and> length (ustr ''j'') = 1
   \<and> exit_status (transferer_main ascii_alpha example_shapes partial_pinyin) = Completed
   \<and> OUT_FILE (transferer_main ascii_alpha example_shapes partial_pinyin)
     = OUT_FILE (transferer_main ascii_alpha [([0x65E6], [ustr ''jg''])] partial_pinyin)
   \<and> (\<exists>cannot n. ERR_LOG (transferer_main ascii_alpha example_shapes partial_pinyin)
        = Report {[0x660C]} cannot n)"
proof -
  have item: "([0x660C], [ustr ''jj'', ustr ''j'']) \<in> set example_shapes"
    by (simp add: example_shapes_def)
  have read: "readings partial_pinyin [0x660C] = []" "readings partial_pinyin [0x65E6] \<noteq> []"
    by (simp_all add: readings_def partial_pinyin_def)
  have kept: "filter (has_readings partial_pinyin) example_shapes = [([0x65E6], [ustr ''jg''])]"
    by (simp add: example_shapes_def has_readings_def read)
  have valid: "\<forall>(ch, shapes)\<in>set example_shapes.
      readings partial_pinyin ch \<noteq> [] \<longrightarrow> (\<forall>shape\<in>set shapes. 2 \<le> length shape)"
    by (simp add: example_shapes_def read ustr_def)
  have missing: "{ch \<in> fst ` set example_shapes. readings partial_pinyin ch = []} = {[0x660C]}"
    using read by (auto simp: example_shapes_def)
  from missing_pinyin_skips_validation [of ascii_alpha example_shapes partial_pinyin] valid
  show ?thesis
    unfolding kept missing using item read by (auto simp: ustr_def)
qed

section \<open>The phonetic transliterator\<close>

lemma XH_value:
  "XH =
    [([105, 117], [113]), ([101, 105], [119]), ([117, 97, 110], [114]),
     ([117, 101], [116]), ([118, 101], [116]), ([117, 110], [121]),
     ([115, 104], [117]), ([99, 104], [105]), ([117, 111], [111]),
     ([105, 101], [112]), ([105, 111, 110, 103], [115]),
     ([111, 110, 103], [115]), ([97, 105], [100]), ([101, 110], [102]),
     ([101, 110, 103], [103]), ([97, 110, 103], [104]), ([97, 110], [106]),
     ([105, 110, 103], [107]), ([117, 97, 105], [107]),
     ([105, 97, 110, 103], [108]), ([117, 97, 110, 103], [108]),
     ([111, 117], [122]), ([105, 97], [120]), ([117, 97], [120]),
     ([97, 111], [99]), ([117, 105], [118]), ([105, 110], [98]),
     ([105, 97, 111], [110]), ([105, 97, 110], [109])]"
  by (simp add: XH_def build_xiaohe_map_def RAW_XIAOHE_def ustr_def lower_def)

lemma XH_entries: "(k, v) \<in> set XH \<Longrightarrow> 2 \<le> length k \<and> v \<noteq> []"
  unfolding XH_value by auto

lemma XH_lookup: "map_of XH k = Some v \<Longrightarrow> 2 \<le> length k \<and> v \<noteq> []"
  using XH_entries map_of_SomeD by fast

lemma find_sorted_least:
  "sorted (map f xs) \<Longrightarrow> find P xs = Some k \<Longrightarrow> x \<in> set xs \<Longrightarrow> P x \<Longrightarrow> f k \<le> f x"
proof (induction xs)
  case Nil
  then show ?case by simp
next
  case (Cons y ys)
  show ?case
  proof (cases "P y")
    case True
    with Cons.prems show ?thesis by auto
  next
    case False
    with Cons.prems have "find P ys = Some k" "x \<in> set ys" "sorted (map f ys)" by auto
    with Cons.IH Cons.prems(4) show ?thesis by blast
  qed
qed

lemma find_longest_first:
  assumes "find P (longest_first keys) = Some k"
  shows "k \<in> set keys \<and> P k \<and> (\<forall>k'\<in>set keys. P k' \<longrightarrow> length k' \<le> length k)"
proof -
  have sorted: "sorted (map (\<lambda>s. - int (length s)) (longest_first keys))"
    unfolding longest_first_def by (rule sorted_sort_key)
  from assms have "k \<in> set (longest_first keys)" "P k"
    by (auto simp: find_Some_iff)
  moreover have "length k' \<le> length k" if "k' \<in> set keys" "P k'" for k'
    using find_sorted_least [OF sorted assms, of k'] that
    by (simp add: longest_first_def)
  ultimately show ?thesis by (simp add: longest_first_def)
qed

lemma endswith_same_length:
  "endswith s k \<Longrightarrow> endswith s k' \<Longrightarrow> length k = length k' \<Longrightarrow> k = k'"
  by (metis endswith_def)

lemma suffix_match_longest:
  assumes "map_of XH k = Some letter" and "endswith fin k"
    and "\<forall>k'. map_of XH k' \<noteq> None \<longrightarrow> endswith fin k' \<longrightarrow> length k' \<le> length k"
  shows "suffix_match fin = Some letter"
proof -
  from assms(1) have key: "k \<in> set (map fst XH)"
    by (force dest: map_of_SomeD)
  with assms(2) have "find (endswith fin) (longest_first (map fst XH)) \<noteq> None"
    by (auto simp: find_None_iff longest_first_def)
  then obtain k0 where found: "find (endswith fin) (longest_first (map fst XH)) = Some k0"
    by blast
  from find_longest_first [OF found] key assms(2)
  have k0: "k0 \<in> set (map fst XH)" "endswith fin k0" "length k \<le> length k0"
    by auto
  from k0(1) have "map_of XH k0 \<noteq> None"
    by (simp add: map_of_eq_None_iff)
  with assms(3) k0(2) have "length k0 \<le> length k" by blast
  with k0 assms(2) have "k0 = k"
    by (intro endswith_same_length [of fin]) auto
  with found assms(1) show ?thesis
    by (simp add: suffix_match_def)
qed

lemma suffix_match_none:
  assumes "\<forall>k'. map_of XH k' \<noteq> None \<longrightarrow> \<not> endswith fin k'"
  shows "suffix_match fin = None"
proof -
  have "\<not> endswith fin k" if "k \<in> set (map fst XH)" for k
    using assms that by (simp add: map_of_eq_None_iff)
  then have "find (endswith fin) (longest_first (map fst XH)) = None"
    by (auto simp: find_None_iff longest_first_def)
  then show ?thesis by (simp add: suffix_match_def)
qed

lemma single_vowel_length: "final \<in> SINGLE_VOWELS \<Longrightarrow> length final = 1"
  by (auto simp: SINGLE_VOWELS_def ustr_def)

text \<open>
  C5: let the final of a syllable not be a key of the scheme table. If a key is a suffix
  of the final and no key that is a suffix of the final is longer, the second letter is
  the scheme letter of that key. If no key is a suffix of the final, the second letter is
  the first letter of the final.
\<close>

theorem longest_suffix_wins:
  assumes "split_initial_final pinyin = (init, fin)" and "map_of XH fin = None"
  shows "(map_of XH k = Some letter \<and> endswith fin k
            \<and> (\<forall>k'. map_of XH k' \<noteq> None \<longrightarrow> endswith fin k' \<longrightarrow> length k' \<le> length k)
          \<longrightarrow> (\<exists>first. xiaohe_double isalpha pinyin = Inr (first, letter)))
    \<and> ((\<forall>k'. map_of XH k' \<noteq> None \<longrightarrow> \<not> endswith fin k') \<and> fin \<noteq> []
          \<longrightarrow> (\<exists>first. xiaohe_double isalpha pinyin = Inr (first, [hd fin])))"
proof (intro conjI impI; elim conjE)
  assume k: "map_of XH k = Some letter" and suffix: "endswith fin k"
    and longest: "\<forall>k'. map_of XH k' \<noteq> None \<longrightarrow> endswith fin k' \<longrightarrow> length k' \<le> length k"
  from k suffix longest have match: "suffix_match fin = Some letter"
    by (rule suffix_match_longest)
  from XH_lookup [OF k] have "2 \<le> length k" "letter \<noteq> []" by simp_all
  with suffix have long: "2 \<le> length fin"
    by (simp add: endswith_def)
  show "\<exists>first. xiaohe_double isalpha pinyin = Inr (first, letter)"
  proof (cases "init = []")
    case True
    from long single_vowel_length [of fin] have "fin \<notin> SINGLE_VOWELS" "length fin \<noteq> 1" "fin \<noteq> []"
      by auto
    with True assms match show ?thesis
      by (simp add: xiaohe_double_def xiaohe_double_for_zero_initial_def)
  next
    case False
    have "(case map_of XH init of None \<Rightarrow> [hd init] | Some v \<Rightarrow> v) \<noteq> []"
      using XH_lookup [of init] by (cases "map_of XH init") auto
    with False assms match \<open>letter \<noteq> []\<close> show ?thesis
      by (simp add: xiaohe_double_def Let_def)
  qed
next
  assume none: "\<forall>k'. map_of XH k' \<noteq> None \<longrightarrow> \<not> endswith fin k'" and fin: "fin \<noteq> []"
  from none have match: "suffix_match fin = None"
    by (rule suffix_match_none)
  show "\<exists>first. xiaohe_double isalpha pinyin = Inr (first, [hd fin])"
  proof (cases "init = []")
    case True
    with assms match fin show ?thesis
      by (simp add: xiaohe_double_def xiaohe_double_for_zero_initial_def)
  next
    case False
    have "(case map_of XH init of None \<Rightarrow> [hd init] | Some v \<Rightarrow> v) \<noteq> []"
      using XH_lookup [of init] by (cases "map_of XH init") auto
    with False assms match fin show ?thesis
      by (simp add: xiaohe_double_def Let_def)
  qed
qed

lemma INITIALS_longest_first:
  "longest_first INITIALS =
    [[122, 104], [99, 104], [115, 104], [98], [112], [109], [102], [100],
     [116], [110], [108], [103], [107], [104], [106], [113], [120], [114],
     [122], [99], [115], [121], [119]]"
  by (simp add: longest_first_def INITIALS_def ustr_def)

lemma XH_key_iff: "map_of XH k \<noteq> None \<longleftrightarrow> k \<in> set (map fst XH)"
  by (simp add: map_of_eq_None_iff)

theorem longest_suffix_wins_witness:
  "split_initial_final (ustr ''tyuan'') = (ustr ''t'', ustr ''yuan'')
   \<and> map_of XH (ustr ''yuan'') = None
   \<and> map_of XH (ustr ''uan'') = Some (ustr ''r'') \<and> endswith (ustr ''yuan'') (ustr ''uan'')
   \<and> map_of XH (ustr ''an'') = Some (ustr ''j'') \<and> endswith (ustr ''yuan'') (ustr ''an'')
   \<and> xiaohe_double ascii_alpha (ustr ''tyuan'') = Inr (ustr ''t'', ustr ''r'')
   \<and> split_initial_final (ustr ''ber'') = (ustr ''b'', ustr ''er'')
   \<and> map_of XH (ustr ''er'') = None
   \<and> xiaohe_double ascii_alpha (ustr ''ber'') = Inr (ustr ''b'', ustr ''e'')"
proof -
  have split: "split_initial_final (ustr ''tyuan'') = (ustr ''t'', ustr ''yuan'')"
    by (simp add: split_initial_final_def INITIALS_longest_first ustr_def startswith_def)
  have absent: "map_of XH (ustr ''yuan'') = None"
    by (simp add: XH_value ustr_def)
  have key: "map_of XH (ustr ''uan'') = Some (ustr ''r'')"
    by (simp add: XH_value ustr_def)
  have suffix: "endswith (ustr ''yuan'') (ustr ''uan'')"
    by (simp add: endswith_def ustr_def)
  have longest: "\<forall>k'. map_of XH k' \<noteq> None \<longrightarrow> endswith (ustr ''yuan'') k'
      \<longrightarrow> length k' \<le> length (ustr ''uan'')"
    unfolding XH_key_iff by (simp add: XH_value endswith_def ustr_def)
  have split2: "split_initial_final (ustr ''ber'') = (ustr ''b'', ustr ''er'')"
    by (simp add: split_initial_final_def INITIALS_longest_first ustr_def startswith_def)
  have absent2: "map_of XH (ustr ''er'') = None"
    by (simp add: XH_value ustr_def)
  have none: "\<forall>k'. map_of XH k' \<noteq> None \<longrightarrow> \<not> endswith (ustr ''er'') k'"
    unfolding XH_key_iff by (simp add: XH_value endswith_def ustr_def)
  have initial: "map_of XH (ustr ''t'') = None" "map_of XH (ustr ''b'') = None"
    by (simp_all add: XH_value ustr_def)
  have texts: "ustr ''t'' \<noteq> []" "ustr ''b'' \<noteq> []" "ustr ''r'' \<noteq> []" "ustr ''er'' \<noteq> []"
    "ustr ''e'' \<noteq> []"
    "[hd (ustr ''t'')] = ustr ''t''" "[hd (ustr ''b'')] = ustr ''b''"
    "[hd (ustr ''er'')] = ustr ''e''"
    by (simp_all add: ustr_def)
  from key suffix longest have "suffix_match (ustr ''yuan'') = Some (ustr ''r'')"
    by (rule suffix_match_longest)
  then have res: "xiaohe_double ascii_alpha (ustr ''tyuan'') = Inr (ustr ''t'', ustr ''r'')"
    by (simp add: xiaohe_double_def split absent initial texts)
  from none have "suffix_match (ustr ''er'') = None"
    by (rule suffix_match_none)
  then have res2: "xiaohe_double ascii_alpha (ustr ''ber'') = Inr (ustr ''b'', ustr ''e'')"
    by (simp add: xiaohe_double_def split2 absent2 initial texts Let_def)
  show ?thesis
    using split absent key suffix res split2 absent2 res2
      longest_suffix_wins [OF split absent, of "ustr ''uan''" "ustr ''r''" ascii_alpha] longest
      longest_suffix_wins [OF split2 absent2, of "ustr ''uan''" "ustr ''r''" ascii_alpha] none
    by (simp add: XH_value ustr_def endswith_def)
qed

lemma no_initial_split:
  assumes "\<forall>init\<in>set INITIALS. \<not> startswith pinyin init"
  shows "split_initial_final pinyin = ([], pinyin)"
proof -
  from assms have "find (startswith pinyin) (longest_first INITIALS) = None"
    by (auto simp: find_None_iff longest_first_def)
  then show ?thesis by (simp add: split_initial_final_def)
qed

text \<open>
  C6: a syllable of one letter that no initial is a prefix of, and that is a simple vowel
  or a letter, has the empty initial and is transliterated to that letter twice. The
  syllable \<open>a\<close> gives \<open>(a, a)\<close>.
\<close>

theorem zero_initial_single_letter:
  "((\<forall>init\<in>set INITIALS. \<not> startswith [c] init) \<and> ([c] \<in> SINGLE_VOWELS \<or> isalpha c)
      \<longrightarrow> split_initial_final [c] = ([], [c]) \<and> xiaohe_double isalpha [c] = Inr ([c], [c]))
   \<and> xiaohe_double isalpha (ustr ''a'') = Inr (ustr ''a'', ustr ''a'')"
proof (intro conjI impI; (elim conjE)?)
  assume "\<forall>init\<in>set INITIALS. \<not> startswith [c] init"
  then show split: "split_initial_final [c] = ([], [c])"
    by (rule no_initial_split)
  assume "[c] \<in> SINGLE_VOWELS \<or> isalpha c"
  with split show "xiaohe_double isalpha [c] = Inr ([c], [c])"
    by (auto simp: xiaohe_double_def xiaohe_double_for_zero_initial_def)
next
  have "\<forall>init\<in>set INITIALS. \<not> startswith (ustr ''a'') init"
    by (simp add: INITIALS_def ustr_def startswith_def)
  then have "split_initial_final (ustr ''a'') = ([], ustr ''a'')"
    by (rule no_initial_split)
  moreover have "ustr ''a'' \<in> SINGLE_VOWELS"
    by (simp add: SINGLE_VOWELS_def)
  ultimately show "xiaohe_double isalpha (ustr ''a'') = Inr (ustr ''a'', ustr ''a'')"
    by (simp add: xiaohe_double_def xiaohe_double_for_zero_initial_def ustr_def)
qed

theorem zero_initial_single_letter_witness:
  "ustr ''e'' \<in> SINGLE_VOWELS
   \<and> split_initial_final (ustr ''e'') = ([], ustr ''e'')
   \<and> xiaohe_double latin_alpha (ustr ''e'') = Inr (ustr ''e'', ustr ''e'')
   \<and> [0xEA] \<notin> SINGLE_VOWELS \<and> latin_alpha 0xEA
   \<and> split_initial_final [0xEA] = ([], [0xEA])
   \<and> xiaohe_double latin_alpha [0xEA] = Inr ([0xEA], [0xEA])"
proof -
  have e: "\<forall>init\<in>set INITIALS. \<not> startswith [101] init"
    by (simp add: INITIALS_def ustr_def startswith_def)
  have ea: "\<forall>init\<in>set INITIALS. \<not> startswith [0xEA] init"
    by (simp add: INITIALS_def ustr_def startswith_def)
  have vowel: "[101] \<in> SINGLE_VOWELS" "[0xEA] \<notin> SINGLE_VOWELS"
    by (simp_all add: SINGLE_VOWELS_def ustr_def)
  have alpha: "latin_alpha 0xEA"
    by (simp add: latin_alpha_def)
  show ?thesis
    using e ea vowel alpha
      zero_initial_single_letter [of 101 latin_alpha]
      zero_initial_single_letter [of "0xEA" latin_alpha]
    by (simp add: ustr_def)
qed

end
